theory Spec2Isabelle
  imports Main "HOL-Library.AList"
begin

section \<open>JavaScript values and the object store\<close>

text \<open>
  The functions of \<^verbatim>\<open>utility-functions.ts\<close> work on plain JSON-like data: schemas,
  layouts and the reference cache. Objects and arrays are mutable and are passed by
  reference, so they live in a store; a value is a primitive or a reference into the
  store. Numbers are the integers (indices and the numbers of the examples); own
  properties are listed in insertion order; inherited properties are not modelled.
\<close>

datatype val = Undefined | Null | Bool bool | Num int | Str string | Ref nat

datatype cell = Object "(string \<times> val) list" | Array "val list"

type_synonym heap = "cell list"

datatype error = TypeError | NotAnArray

definition lookup_cell :: "heap \<Rightarrow> nat \<Rightarrow> cell option" where
  "lookup_cell h a = (if a < length h then Some (h ! a) else None)"

definition alloc :: "cell \<Rightarrow> heap \<Rightarrow> nat \<times> heap" where
  "alloc c h = (length h, h @ [c])"

text \<open>
  Modelled from the spec: \<^verbatim>\<open>isObject\<close> and \<^verbatim>\<open>isArray\<close> are imported from
  validator-functions, which is not among the sources. The spec dispatches on a closed
  union of primitive, object node and array node: \<^verbatim>\<open>isObject\<close> holds of the plain objects
  and \<^verbatim>\<open>isArray\<close> of the arrays.
\<close>

definition isObject :: "heap \<Rightarrow> val \<Rightarrow> bool" where
  "isObject h v = (case v of
       Ref a \<Rightarrow> (case lookup_cell h a of Some (Object kvs) \<Rightarrow> True | _ \<Rightarrow> False)
     | _ \<Rightarrow> False)"

definition isArray :: "heap \<Rightarrow> val \<Rightarrow> bool" where
  "isArray h v = (case v of
       Ref a \<Rightarrow> (case lookup_cell h a of Some (Array vs) \<Rightarrow> True | _ \<Rightarrow> False)
     | _ \<Rightarrow> False)"

definition elems :: "heap \<Rightarrow> val \<Rightarrow> val list" where
  \<comment> \<open>the elements of an array, in index order\<close>
  "elems h v = (case v of
       Ref a \<Rightarrow> (case lookup_cell h a of Some (Array vs) \<Rightarrow> vs | _ \<Rightarrow> [])
     | _ \<Rightarrow> [])"

definition array_at :: "heap \<Rightarrow> val \<Rightarrow> nat \<Rightarrow> val" where
  \<comment> \<open>\<^verbatim>\<open>a[i]\<close> for a number \<open>i\<close>: undefined past the end\<close>
  "array_at h v i = (if i < length (elems h v) then elems h v ! i else Undefined)"

subsection \<open>Numbers as strings\<close>

fun show_nat :: "nat \<Rightarrow> string" where
  "show_nat n =
     (if n < 10 then [''0123456789'' ! n]
      else show_nat (n div 10) @ [''0123456789'' ! (n mod 10)])"

declare show_nat.simps [simp del]

definition show_int :: "int \<Rightarrow> string" where
  \<comment> \<open>what \<^verbatim>\<open>'' + i\<close> gives for an integer \<open>i\<close>\<close>
  "show_int i = (if i < 0 then CHR ''-'' # show_nat (nat (- i)) else show_nat (nat i))"

subsection \<open>Properties\<close>

definition own_props :: "heap \<Rightarrow> val \<Rightarrow> (string \<times> val) list" where
  \<comment> \<open>the own enumerable properties of a value, as \<^verbatim>\<open>Object.keys\<close> and
     \<^verbatim>\<open>Object.assign\<close> see them: the entries of an object, the indexed elements of an
     array, the indexed characters of a string, nothing for the other primitives\<close>
  "own_props h v = (case v of
       Ref a \<Rightarrow> (case lookup_cell h a of
           Some (Object kvs) \<Rightarrow> kvs
         | Some (Array vs) \<Rightarrow> zip (map show_nat [0..<length vs]) vs
         | None \<Rightarrow> [])
     | Str s \<Rightarrow> zip (map show_nat [0..<length s]) (map (\<lambda>c. Str [c]) s)
     | _ \<Rightarrow> [])"

definition length_prop :: "heap \<Rightarrow> val \<Rightarrow> (string \<times> val) list" where
  \<comment> \<open>the \<^verbatim>\<open>length\<close> of an array or a string: a property, but not an enumerable one\<close>
  "length_prop h v = (case v of
       Ref a \<Rightarrow> (case lookup_cell h a of
           Some (Array vs) \<Rightarrow> [(''length'', Num (int (length vs)))]
         | _ \<Rightarrow> [])
     | Str s \<Rightarrow> [(''length'', Num (int (length s)))]
     | _ \<Rightarrow> [])"

definition get_prop :: "heap \<Rightarrow> val \<Rightarrow> string \<Rightarrow> error + val" where
  \<comment> \<open>the property read \<^verbatim>\<open>v[k]\<close>: a TypeError on undefined and null, undefined for a
     property that is not there\<close>
  "get_prop h v k = (case v of
       Undefined \<Rightarrow> Inl TypeError
     | Null \<Rightarrow> Inl TypeError
     | _ \<Rightarrow> Inr (case map_of (own_props h v @ length_prop h v) k of
                  Some x \<Rightarrow> x
                | None \<Rightarrow> Undefined))"

definition has_key :: "heap \<Rightarrow> val \<Rightarrow> string \<Rightarrow> bool" where
  \<comment> \<open>\<^verbatim>\<open>k in v\<close> for an object \<open>v\<close>\<close>
  "has_key h v k = (map_of (own_props h v @ length_prop h v) k \<noteq> None)"

definition read_prop :: "heap \<Rightarrow> val \<Rightarrow> string \<Rightarrow> val" where
  \<comment> \<open>the property read on a value known to be an object, where it cannot throw\<close>
  "read_prop h v k = (case map_of (own_props h v @ length_prop h v) k of Some x \<Rightarrow> x | None \<Rightarrow> Undefined)"

definition set_prop :: "heap \<Rightarrow> nat \<Rightarrow> string \<Rightarrow> val \<Rightarrow> heap" where
  \<comment> \<open>the assignment \<^verbatim>\<open>o[k] = v\<close> on the object at address \<open>a\<close>: an existing
     property keeps its place, a new one goes last\<close>
  "set_prop h a k v = (case lookup_cell h a of
       Some (Object kvs) \<Rightarrow> h[a := Object (AList.update k v kvs)]
     | _ \<Rightarrow> h)"

section \<open>JSON Pointer\<close>

text \<open>
  Modelled from the spec: the \<^verbatim>\<open>JsonPointer\<close> class (jsonpointer.ts) is not among the
  sources. Its \<^verbatim>\<open>escape\<close> is the RFC 6901 transform (\<^verbatim>\<open>~\<close> to \<^verbatim>\<open>~0\<close>, \<^verbatim>\<open>/\<close> to
  \<^verbatim>\<open>~1\<close>) and \<^verbatim>\<open>unescape\<close> its inverse (\<^verbatim>\<open>~1\<close> to \<^verbatim>\<open>/\<close>, \<^verbatim>\<open>~0\<close> to \<^verbatim>\<open>~\<close>).
\<close>

definition escape :: "string \<Rightarrow> string" where
  "escape s = concat (map (\<lambda>c. if c = CHR ''~'' then ''~0'' else if c = CHR ''/'' then ''~1'' else [c]) s)"

fun unescape :: "string \<Rightarrow> string" where
  "unescape (c # d # s) =
     (if c = CHR ''~'' \<and> d = CHR ''1'' then CHR ''/'' # unescape s
      else if c = CHR ''~'' \<and> d = CHR ''0'' then CHR ''~'' # unescape s
      else c # unescape (d # s))"
| "unescape s = s"

text \<open>
  Modelled from the spec: \<^verbatim>\<open>JsonPointer.compile\<close> of a pointer string gives the canonical
  string: a pointer without a leading \<^verbatim>\<open>/\<close> is normalised by prefixing one, and the root
  pointer is the empty string.
\<close>

definition compile :: "string \<Rightarrow> string" where
  "compile s = (if s = [] \<or> hd s = CHR ''/'' then s else CHR ''/'' # s)"

fun split_slash :: "string \<Rightarrow> string list" where
  "split_slash [] = [[]]"
| "split_slash (c # s) =
     (if c = CHR ''/'' then [] # split_slash s
      else (case split_slash s of [] \<Rightarrow> [[c]] | seg # segs \<Rightarrow> (c # seg) # segs))"

text \<open>
  Modelled from the spec: \<^verbatim>\<open>JsonPointer.parse\<close> gives the ordered sequence of unescaped
  segments, the inverse of compile.
\<close>

definition parse :: "string \<Rightarrow> string list" where
  "parse s = (let p = compile s in if p = [] then [] else map unescape (split_slash (tl p)))"

fun get_segments :: "heap \<Rightarrow> val \<Rightarrow> string list \<Rightarrow> val" where
  "get_segments h v [] = v"
| "get_segments h v (k # ks) =
     (if isObject h v \<or> isArray h v
      then (case map_of (own_props h v) k of None \<Rightarrow> Undefined | Some x \<Rightarrow> get_segments h x ks)
      else Undefined)"

text \<open>
  Modelled from the spec: \<^verbatim>\<open>JsonPointer.get\<close> walks the segments from the document root
  and returns undefined the moment a segment is missing.
\<close>

definition JsonPointer_get :: "heap \<Rightarrow> val \<Rightarrow> string \<Rightarrow> val" where
  "JsonPointer_get h v p = get_segments h v (parse p)"

section \<open>Calls, results and the receiver\<close>

text \<open>
  A call ends with a value or with a thrown error, and in both cases leaves a store
  behind. A recursion that never returns is the value \<open>None\<close>: the recursive functions
  take the depth of calls they may still open as their first argument.

  \<^verbatim>\<open>mapLayout\<close>, \<^verbatim>\<open>resolveSchemaReference\<close> and \<^verbatim>\<open>forOwnDeep\<close> reach themselves through
  \<^verbatim>\<open>this\<close>. The receiver of a call is either undefined (the function called on its own)
  or the module object, whose properties of these names are the exported functions; it
  has no other property.
\<close>

datatype this_binding = ThisUndefined | ThisModule

type_synonym ('a, 's) outcome = "((error + 'a) \<times> 's) option"

section \<open>mapLayout\<close>

type_synonym layout_visitor = "val \<Rightarrow> int \<Rightarrow> val \<Rightarrow> string \<Rightarrow> heap \<Rightarrow> (error + val) \<times> heap"

definition mapLayout_child ::
  "(val \<Rightarrow> string \<Rightarrow> heap \<Rightarrow> (val, heap) outcome) \<Rightarrow> this_binding \<Rightarrow> val \<Rightarrow> string \<Rightarrow>
   string \<Rightarrow> heap \<Rightarrow> (unit, heap) outcome" where
  \<comment> \<open>\<^verbatim>\<open>newItem[k] = this.mapLayout(newItem[k], fn, rootLayout, newPath + '/' + k)\<close>\<close>
  "mapLayout_child self this newItem k newPath h =
     (case this of
        ThisUndefined \<Rightarrow> Some (Inl TypeError, h)
      | ThisModule \<Rightarrow>
          (case self (read_prop h newItem k) (newPath @ ''/'' @ k) h of
             None \<Rightarrow> None
           | Some (Inl e, h1) \<Rightarrow> Some (Inl e, h1)
           | Some (Inr r, h1) \<Rightarrow>
               Some (Inr (), (case newItem of Ref a \<Rightarrow> set_prop h1 a k r | _ \<Rightarrow> h1))))"

definition mapLayout_children ::
  "(val \<Rightarrow> string \<Rightarrow> heap \<Rightarrow> (val, heap) outcome) \<Rightarrow> this_binding \<Rightarrow> val \<Rightarrow> string \<Rightarrow>
   heap \<Rightarrow> (unit, heap) outcome" where
  "mapLayout_children self this newItem newPath h =
     (if isObject h newItem then
        (if isArray h (read_prop h newItem ''items'')
         then mapLayout_child self this newItem ''items'' newPath h
         else if isArray h (read_prop h newItem ''tabs'')
         then mapLayout_child self this newItem ''tabs'' newPath h
         else Some (Inr (), h))
      else Some (Inr (), h))"

text \<open>
  The loop of \<^verbatim>\<open>_.forEach(layout, ...)\<close>: lodash fixes the number of iterations when it
  starts and reads \<^verbatim>\<open>layout[index]\<close> at each iteration. The callback returns nothing,
  so the loop never stops early. \<open>newLayout\<close> is local until it is returned.
\<close>

fun mapLayout_loop ::
  "(val \<Rightarrow> string \<Rightarrow> heap \<Rightarrow> (val, heap) outcome) \<Rightarrow> this_binding \<Rightarrow> layout_visitor \<Rightarrow>
   val \<Rightarrow> val \<Rightarrow> string \<Rightarrow> nat list \<Rightarrow> val list \<Rightarrow> int \<Rightarrow> heap \<Rightarrow> (val list, heap) outcome" where
  "mapLayout_loop self this fn layout rootLayout path [] newLayout indexPad h =
     Some (Inr newLayout, h)"
| "mapLayout_loop self this fn layout rootLayout path (index # rest) newLayout indexPad h =
     (let item = array_at h layout index;
          realIndex = int index + indexPad;
          newPath = path @ ''/'' @ show_int realIndex
      in case mapLayout_children self this item newPath h of
           None \<Rightarrow> None
         | Some (Inl e, h1) \<Rightarrow> Some (Inl e, h1)
         | Some (Inr u, h1) \<Rightarrow>
             (case fn item realIndex rootLayout newPath h1 of
                (Inl e, h2) \<Rightarrow> Some (Inl e, h2)
              | (Inr newItem, h2) \<Rightarrow>
                  if newItem = Undefined
                  then mapLayout_loop self this fn layout rootLayout path rest
                         newLayout (indexPad - 1) h2
                  else if isArray h2 newItem
                  then mapLayout_loop self this fn layout rootLayout path rest
                         (newLayout @ elems h2 newItem)
                         (indexPad + (int (length (elems h2 newItem)) - 1)) h2
                  else mapLayout_loop self this fn layout rootLayout path rest
                         (newLayout @ [newItem]) indexPad h2))"

text \<open>
  The parameter \<^verbatim>\<open>layout\<close> is declared \<^verbatim>\<open>any[]\<close>; on a value that is not an array the
  model stops with \<open>NotAnArray\<close>, which stands for no behaviour of the source. The
  defaults \<^verbatim>\<open>rootLayout = layout\<close> and \<^verbatim>\<open>path = ''\<close> are the caller's to pass.
\<close>

primrec mapLayout ::
  "nat \<Rightarrow> this_binding \<Rightarrow> layout_visitor \<Rightarrow> val \<Rightarrow> val \<Rightarrow> string \<Rightarrow> heap \<Rightarrow> (val, heap) outcome" where
  "mapLayout 0 this fn layout rootLayout path h = None"
| "mapLayout (Suc depth) this fn layout rootLayout path h =
     (if \<not> isArray h layout then Some (Inl NotAnArray, h)
      else
        (case mapLayout_loop (\<lambda>l p. mapLayout depth this fn l rootLayout p) this fn
                layout rootLayout path [0..<length (elems h layout)] [] 0 h of
           None \<Rightarrow> None
         | Some (Inl e, h1) \<Rightarrow> Some (Inl e, h1)
         | Some (Inr newLayout, h1) \<Rightarrow>
             Some (Inr (Ref (fst (alloc (Array newLayout) h1))), snd (alloc (Array newLayout) h1))))"

section \<open>resolveSchemaReference\<close>

text \<open>
  The cache \<^verbatim>\<open>schemaReferences\<close> maps a compiled pointer to an entry. The function writes
  the entries \<^verbatim>\<open>{ 'isCircular': true }\<close> and \<^verbatim>\<open>{ 'schema': v }\<close> and reads an entry through
  \<^verbatim>\<open>['isCircular'] === true\<close> and \<^verbatim>\<open>['schema']\<close> only, so an entry is the pair of these
  two readings: a missing \<^verbatim>\<open>isCircular\<close> reads as not true, a missing \<^verbatim>\<open>schema\<close> as
  undefined.
\<close>

record entry =
  isCircular :: bool
  entry_schema :: val

type_synonym cache = "string \<Rightarrow> entry option"

type_synonym rstate = "heap \<times> cache"

definition reference_pointer :: "heap \<Rightarrow> val \<Rightarrow> string option" where
  \<comment> \<open>the compiled pointer of a reference; \<open>None\<close> for a value that is not a reference\<close>
  "reference_pointer h reference =
     (case reference of
        Str s \<Rightarrow> Some (compile s)
      | _ \<Rightarrow>
         (if \<not> isObject h reference \<or> length (own_props h reference) \<noteq> 1 \<or>
             \<not> has_key h reference ''$ref''
          then None
          else (case read_prop h reference ''$ref'' of Str s \<Rightarrow> Some (compile s) | _ \<Rightarrow> None)))"

definition is_allOf_wrapper :: "heap \<Rightarrow> val \<Rightarrow> bool" where
  \<comment> \<open>the negation of the test of line 194\<close>
  "is_allOf_wrapper h item =
     (isObject h item \<and> length (own_props h item) = 1 \<and> has_key h item ''allOf'' \<and>
      isArray h (read_prop h item ''allOf''))"

definition Object_assign :: "heap \<Rightarrow> nat \<Rightarrow> val \<Rightarrow> heap" where
  \<comment> \<open>\<^verbatim>\<open>Object.assign(v1, v2)\<close> for the object \<open>v1\<close> at address \<open>a\<close>: every own enumerable
     property of \<open>v2\<close> is assigned to \<open>v1\<close>, in order\<close>
  "Object_assign h a v2 = foldl (\<lambda>h' (k, x). set_prop h' a k x) h (own_props h v2)"

text \<open>
  \<^verbatim>\<open>item.allOf.map(object => this.resolveSchemaReference(object, ...))\<close>: the members are
  resolved in order, each in the state the one before it left. The resolver changes no
  cell of the store that exists (it only allocates), so the members are read once.
\<close>

fun resolve_members ::
  "(val \<Rightarrow> rstate \<Rightarrow> (val, rstate) outcome) \<Rightarrow> this_binding \<Rightarrow> val list \<Rightarrow> rstate \<Rightarrow>
   (val list, rstate) outcome" where
  "resolve_members self this [] s = Some (Inr [], s)"
| "resolve_members self this (object # rest) s =
     (case this of
        ThisUndefined \<Rightarrow> Some (Inl TypeError, s)
      | ThisModule \<Rightarrow>
          (case self object s of
             None \<Rightarrow> None
           | Some (Inl e, s1) \<Rightarrow> Some (Inl e, s1)
           | Some (Inr v, s1) \<Rightarrow>
               (case resolve_members self this rest s1 of
                  None \<Rightarrow> None
                | Some (Inl e, s2) \<Rightarrow> Some (Inl e, s2)
                | Some (Inr vs, s2) \<Rightarrow> Some (Inr (v # vs), s2))))"

definition placeholder :: "string \<Rightarrow> heap \<Rightarrow> val \<times> heap" where
  \<comment> \<open>the fresh object \<^verbatim>\<open>{ '$ref': schemaPointer }\<close>\<close>
  "placeholder schemaPointer h =
     (Ref (fst (alloc (Object [(''$ref'', Str schemaPointer)]) h)),
      snd (alloc (Object [(''$ref'', Str schemaPointer)]) h))"

text \<open>
  The remote branch reads \<^verbatim>\<open>this.http.get\<close>; neither receiver has a property
  \<^verbatim>\<open>http\<close>, so the read throws a TypeError.
\<close>

primrec resolveSchemaReference ::
  "nat \<Rightarrow> this_binding \<Rightarrow> val \<Rightarrow> val \<Rightarrow> bool \<Rightarrow> rstate \<Rightarrow> (val, rstate) outcome" where
  "resolveSchemaReference 0 this reference schema circularOK s = None"
| "resolveSchemaReference (Suc depth) this reference schema circularOK s =
     (case reference_pointer (fst s) reference of
        None \<Rightarrow> Some (Inr reference, s)
      | Some schemaPointer \<Rightarrow>
         (case snd s schemaPointer of
            Some e \<Rightarrow>
              (if isCircular e \<and> \<not> circularOK
               then Some (Inr (fst (placeholder schemaPointer (fst s))),
                          (snd (placeholder schemaPointer (fst s)), snd s))
               else Some (Inr (entry_schema e), s))
          | None \<Rightarrow>
              (if schemaPointer = ''''
               then
                 (if circularOK
                  then Some (Inr schema,
                         (fst s, (snd s)('''' \<mapsto> \<lparr>isCircular = True, entry_schema = Undefined\<rparr>)))
                  else Some (Inr (fst (placeholder '''' (fst s))),
                         (snd (placeholder '''' (fst s)),
                          (snd s)('''' \<mapsto> \<lparr>isCircular = True, entry_schema = Undefined\<rparr>))))
               else if take 4 schemaPointer = ''http''
               then Some (Inl TypeError, s)
               else
                 (let item = JsonPointer_get (fst s) schema schemaPointer in
                  if \<not> is_allOf_wrapper (fst s) item
                  then Some (Inr item,
                         (fst s, (snd s)(schemaPointer \<mapsto> \<lparr>isCircular = False, entry_schema = item\<rparr>)))
                  else
                    (case resolve_members
                            (\<lambda>object. resolveSchemaReference depth this object schema circularOK)
                            this (elems (fst s) (read_prop (fst s) item ''allOf'')) s of
                       None \<Rightarrow> None
                     | Some (Inl e, s1) \<Rightarrow> Some (Inl e, s1)
                     | Some (Inr vs, s1) \<Rightarrow>
                         (let a = fst (alloc (Object []) (fst s1));
                              h2 = snd (alloc (Object []) (fst s1));
                              targetSchema = Ref a
                          in Some (Inr targetSchema,
                               (foldl (\<lambda>h' v2. Object_assign h' a v2) h2 vs,
                                (snd s1)(schemaPointer \<mapsto>
                                   \<lparr>isCircular = False, entry_schema = targetSchema\<rparr>)))))))))"

section \<open>forOwnDeep\<close>

type_synonym node_visitor = "val \<Rightarrow> val \<Rightarrow> val \<Rightarrow> string \<Rightarrow> heap \<Rightarrow> (error + val) \<times> heap"

definition truthy :: "val \<Rightarrow> bool" where
  "truthy v = (case v of
       Undefined \<Rightarrow> False
     | Null \<Rightarrow> False
     | Bool b \<Rightarrow> b
     | Num n \<Rightarrow> n \<noteq> 0
     | Str s \<Rightarrow> s \<noteq> []
     | Ref a \<Rightarrow> True)"

text \<open>
  The key lodash hands to the callback is a number for an array and a string for an
  object; \<^verbatim>\<open>JsonPointer.escape\<close> makes a pointer segment of either.
\<close>

datatype key = Index nat | Name string

definition key_segment :: "key \<Rightarrow> string" where
  "key_segment k = (case k of Index i \<Rightarrow> show_nat i | Name n \<Rightarrow> escape n)"

definition read_key :: "heap \<Rightarrow> val \<Rightarrow> key \<Rightarrow> val" where
  "read_key h object k = (case k of Index i \<Rightarrow> array_at h object i | Name n \<Rightarrow> read_prop h object n)"

definition forward_keys :: "heap \<Rightarrow> val \<Rightarrow> key list" where
  \<comment> \<open>the indices of an array, the own keys of an object, nothing for a primitive\<close>
  "forward_keys h object =
     (if isArray h object then map Index [0..<length (elems h object)]
      else if isObject h object then map (\<lambda>kv. Name (fst kv)) (own_props h object)
      else [])"

text \<open>
  \<^verbatim>\<open>_.forEach\<close>, \<^verbatim>\<open>_.forOwn\<close>, \<^verbatim>\<open>_.forEachRight\<close> and \<^verbatim>\<open>_.forOwnRight\<close> fix the keys they
  visit when they start, read the value of a key when they reach it, and stop as soon as
  the callback returns exactly \<^verbatim>\<open>false\<close>. The callback here returns what the inner
  \<^verbatim>\<open>forOwnDeep\<close> returns, which is the child value itself.
\<close>

fun forOwnDeep_each ::
  "(val \<Rightarrow> string \<Rightarrow> heap \<Rightarrow> (val, heap) outcome) \<Rightarrow> this_binding \<Rightarrow> val \<Rightarrow> string \<Rightarrow>
   key list \<Rightarrow> heap \<Rightarrow> (unit, heap) outcome" where
  "forOwnDeep_each self this object jsonPointer [] h = Some (Inr (), h)"
| "forOwnDeep_each self this object jsonPointer (k # rest) h =
     (case this of
        ThisUndefined \<Rightarrow> Some (Inl TypeError, h)
      | ThisModule \<Rightarrow>
          (case self (read_key h object k) (jsonPointer @ ''/'' @ key_segment k) h of
             None \<Rightarrow> None
           | Some (Inl e, h1) \<Rightarrow> Some (Inl e, h1)
           | Some (Inr r, h1) \<Rightarrow>
               if r = Bool False then Some (Inr (), h1)
               else forOwnDeep_each self this object jsonPointer rest h1))"

definition currentKey_of :: "string \<Rightarrow> val" where
  \<comment> \<open>\<^verbatim>\<open>JsonPointer.parse(jsonPointer).pop()\<close>\<close>
  "currentKey_of jsonPointer =
     (case parse jsonPointer of [] \<Rightarrow> Undefined | k # ks \<Rightarrow> Str (last (k # ks)))"

primrec forOwnDeep ::
  "nat \<Rightarrow> this_binding \<Rightarrow> val \<Rightarrow> node_visitor \<Rightarrow> val \<Rightarrow> string \<Rightarrow> bool \<Rightarrow> heap \<Rightarrow>
   (val, heap) outcome" where
  "forOwnDeep 0 this object fn rootObject jsonPointer bottomUp h = None"
| "forOwnDeep (Suc depth) this object fn rootObject jsonPointer bottomUp h =
     (let isRoot = \<not> truthy rootObject;
          rootObject' = (if isRoot then object else rootObject);
          currentKey = currentKey_of jsonPointer
      in case (if \<not> isRoot \<and> \<not> bottomUp then fn object currentKey rootObject' jsonPointer h
               else (Inr Undefined, h)) of
           (Inl e, h1) \<Rightarrow> Some (Inl e, h1)
         | (Inr u, h1) \<Rightarrow>
             (case forOwnDeep_each
                     (\<lambda>value p. forOwnDeep depth this value fn rootObject' p bottomUp)
                     this object jsonPointer
                     (if bottomUp then rev (forward_keys h1 object) else forward_keys h1 object)
                     h1 of
                None \<Rightarrow> None
              | Some (Inl e, h2) \<Rightarrow> Some (Inl e, h2)
              | Some (Inr u', h2) \<Rightarrow>
                  (case (if \<not> isRoot \<and> bottomUp then fn object currentKey rootObject' jsonPointer h2
                         else (Inr Undefined, h2)) of
                     (Inl e, h3) \<Rightarrow> Some (Inl e, h3)
                   | (Inr u'', h3) \<Rightarrow> Some (Inr object, h3))))"

section \<open>isInputRequired\<close>

text \<open>
  \<^verbatim>\<open>JsonPointer.getSchema\<close> is neither among the sources nor described by the spec; it
  is a parameter of the model. The second component of the result is what the call
  writes with \<^verbatim>\<open>console.error\<close>.
\<close>

definition required_of ::
  "(heap \<Rightarrow> val \<Rightarrow> string list \<Rightarrow> error + val) \<Rightarrow> heap \<Rightarrow> val \<Rightarrow> string list \<Rightarrow> error + val" where
  \<comment> \<open>the value of \<^verbatim>\<open>requiredList\<close> for a non-empty \<^verbatim>\<open>dataPointerArray\<close>, lines 364 to 374\<close>
  "required_of getSchema h schema dataPointerArray =
     (if length dataPointerArray > 1 then
        (let listPointerArray = butlast dataPointerArray in
         if last listPointerArray = ''-'' then
           (case getSchema h schema (butlast listPointerArray) of
              Inl e \<Rightarrow> Inl e
            | Inr sub \<Rightarrow>
                (case get_prop h sub ''items'' of
                   Inl e \<Rightarrow> Inl e
                 | Inr items \<Rightarrow> get_prop h items ''required''))
         else
           (case getSchema h schema listPointerArray of
              Inl e \<Rightarrow> Inl e
            | Inr sub \<Rightarrow> get_prop h sub ''required''))
      else get_prop h schema ''required'')"

definition isInputRequired ::
  "(heap \<Rightarrow> val \<Rightarrow> string list \<Rightarrow> error + val) \<Rightarrow> heap \<Rightarrow> val \<Rightarrow> string \<Rightarrow>
   (error + bool) \<times> string list" where
  "isInputRequired getSchema h schema pointer =
     (if \<not> isObject h schema then (Inr False, [''Schema must be an object.''])
      else
        (let dataPointerArray = parse pointer in
         if dataPointerArray \<noteq> [] then
           (let keyName = last dataPointerArray in
            case required_of getSchema h schema dataPointerArray of
              Inl e \<Rightarrow> (Inl e, [])
            | Inr requiredList \<Rightarrow>
                if isArray h requiredList
                then (Inr (Str keyName \<in> set (elems h requiredList)), [])
                else (Inr False, []))
         else (Inr False, [])))"

text \<open>
  The required list as the spec words it: taken from the top-level schema for a pointer
  of one segment, from the \<^verbatim>\<open>items\<close> sub-schema of the ancestor when the parent path
  ends in the segment \<^verbatim>\<open>-\<close>, and from the schema at the parent path otherwise.
\<close>

definition required_list_spec ::
  "(heap \<Rightarrow> val \<Rightarrow> string list \<Rightarrow> error + val) \<Rightarrow> heap \<Rightarrow> val \<Rightarrow> string list \<Rightarrow> error + val" where
  "required_list_spec getSchema h schema segments =
     (case rev segments of
        [] \<Rightarrow> Inr Undefined
      | [k] \<Rightarrow> get_prop h schema ''required''
      | k # parent # ancestor \<Rightarrow>
          if parent = ''-''
          then (case getSchema h schema (rev ancestor) of
                  Inl e \<Rightarrow> Inl e
                | Inr sub \<Rightarrow> (case get_prop h sub ''items'' of
                                Inl e \<Rightarrow> Inl e
                              | Inr items \<Rightarrow> get_prop h items ''required''))
          else (case getSchema h schema (rev (parent # ancestor)) of
                  Inl e \<Rightarrow> Inl e
                | Inr sub \<Rightarrow> get_prop h sub ''required''))"

text \<open>
  An instance to evaluate: a \<^verbatim>\<open>getSchema\<close> that walks the segments as they are, and the
  schema \<^verbatim>\<open>{"list": {"items": {"required": ["x"]}}}\<close> (its root at address 0).
\<close>

definition plain_getSchema :: "heap \<Rightarrow> val \<Rightarrow> string list \<Rightarrow> error + val" where
  "plain_getSchema h schema segments = Inr (get_segments h schema segments)"

definition list_schema :: heap where
  "list_schema =
     [Object [(''list'', Ref 1)], Object [(''items'', Ref 2)],
      Object [(''required'', Ref 3)], Array [Str ''x'']]"

text \<open>
  The schema \<^verbatim>\<open>{"defs": {"w": {"allOf": [{"a": 1}, {"$ref": "/defs/b"}]}, "b": {"b": 2}}}\<close>,
  its root at address 0.
\<close>

definition allOf_schema :: heap where
  "allOf_schema =
     [Object [(''defs'', Ref 1)],
      Object [(''w'', Ref 2), (''b'', Ref 6)],
      Object [(''allOf'', Ref 3)],
      Array [Ref 4, Ref 5],
      Object [(''a'', Num 1)],
      Object [(''$ref'', Str ''/defs/b'')],
      Object [(''b'', Num 2)]]"



text \<open>The cache that resolving \<^verbatim>\<open>/defs/w\<close> in this schema leaves.\<close>

definition w_cache :: cache where
  "w_cache = [''/defs/b'' \<mapsto> \<lparr>isCircular = False, entry_schema = Ref 6\<rparr>,
       ''/defs/w'' \<mapsto> \<lparr>isCircular = False, entry_schema = Ref 7\<rparr>]"

text \<open>
  A pointer refers to another when its target is an \<^verbatim>\<open>allOf\<close> wrapper with a member that
  is a reference to the other; the pointer is local, that is neither the root nor one
  that starts with \<^verbatim>\<open>http\<close>. A set of pointers is in progress when none of them is in the
  cache and each refers to one of the set or to the pointer of the reference now being
  resolved.
\<close>

definition refers :: "heap \<Rightarrow> val \<Rightarrow> string \<Rightarrow> string \<Rightarrow> bool" where
  "refers h schema x y =
     (x \<noteq> '''' \<and> take 4 x \<noteq> ''http'' \<and> is_allOf_wrapper h (JsonPointer_get h schema x) \<and>
      (\<exists>object \<in> set (elems h (read_prop h (JsonPointer_get h schema x) ''allOf'')).
         reference_pointer h object = Some y))"

definition in_progress :: "heap \<Rightarrow> val \<Rightarrow> cache \<Rightarrow> string set \<Rightarrow> string option \<Rightarrow> bool" where
  "in_progress h schema c S cur =
     ((\<forall>x \<in> S. c x = None) \<and>
      (\<forall>x \<in> S. \<exists>y. (y \<in> S \<or> cur = Some y) \<and> refers h schema x y))"

text \<open>
  A cycle of pointers the resolver follows: the target of each pointer is an object whose
  only key is \<^verbatim>\<open>allOf\<close>, and the first member of that array is a reference to the next
  pointer of the list, the last one referring to the first. None of the pointers is the
  root, starts with \<^verbatim>\<open>http\<close> or is in the cache.
\<close>

definition refers_first :: "heap \<Rightarrow> val \<Rightarrow> string \<Rightarrow> string \<Rightarrow> bool" where
  "refers_first h schema p q =
     (is_allOf_wrapper h (JsonPointer_get h schema p) \<and>
      (case elems h (read_prop h (JsonPointer_get h schema p) ''allOf'') of
         [] \<Rightarrow> False
       | object # rest \<Rightarrow> reference_pointer h object = Some q))"

definition allOf_cycle :: "heap \<Rightarrow> val \<Rightarrow> cache \<Rightarrow> string list \<Rightarrow> bool" where
  "allOf_cycle h schema c ps =
     (ps \<noteq> [] \<and>
      (\<forall>i<length ps. ps ! i \<noteq> '''' \<and> take 4 (ps ! i) \<noteq> ''http'' \<and> c (ps ! i) = None \<and>
         refers_first h schema (ps ! i) (ps ! (Suc i mod length ps))))"

text \<open>
  The same with any member of the array, not only the first, referring to the next pointer.
\<close>

definition reference_cycle :: "heap \<Rightarrow> val \<Rightarrow> cache \<Rightarrow> string list \<Rightarrow> bool" where
  "reference_cycle h schema c ps =
     (ps \<noteq> [] \<and>
      (\<forall>i<length ps. c (ps ! i) = None \<and> refers h schema (ps ! i) (ps ! (Suc i mod length ps))))"

text \<open>
  Two schemas with \<^verbatim>\<open>/defs/A\<close> referring to \<^verbatim>\<open>/defs/B\<close> and back: in the first through
  \<^verbatim>\<open>{"allOf": [{"$ref": ...}]}\<close>, in the second through \<^verbatim>\<open>{"$ref": ...}\<close> alone.
\<close>

definition cycle_allOf :: heap where
  "cycle_allOf =
     [Object [(''defs'', Ref 1)],
      Object [(''A'', Ref 2), (''B'', Ref 5)],
      Object [(''allOf'', Ref 3)],
      Array [Ref 4],
      Object [(''$ref'', Str ''/defs/B'')],
      Object [(''allOf'', Ref 6)],
      Array [Ref 7],
      Object [(''$ref'', Str ''/defs/A'')]]"

definition cycle_ref :: heap where
  "cycle_ref =
     [Object [(''defs'', Ref 1)],
      Object [(''A'', Ref 2), (''B'', Ref 3)],
      Object [(''$ref'', Str ''/defs/B'')],
      Object [(''$ref'', Str ''/defs/A'')]]"

text \<open>
  A schema where \<^verbatim>\<open>/defs/A\<close> is \<^verbatim>\<open>{"allOf": [{"a": 1}, {"$ref": "/defs/A"}]}\<close>: it refers to
  itself through its second member.
\<close>

definition cycle_second :: heap where
  "cycle_second =
     [Object [(''defs'', Ref 1)],
      Object [(''A'', Ref 2)],
      Object [(''allOf'', Ref 3)],
      Array [Ref 4, Ref 5],
      Object [(''a'', Num 1)],
      Object [(''$ref'', Str ''/defs/A'')]]"

text \<open>
  A visitor that records the pointer it is called with, as
  \<^verbatim>\<open>(value, key, root, pointer) => { visited.push(pointer); }\<close> does, \<^verbatim>\<open>visited\<close> being the
  array at the address \<open>log\<close>; and two documents, each with an empty \<^verbatim>\<open>visited\<close> array
  after it: \<^verbatim>\<open>{"a": {"b": 1}, "c": 2}\<close> and \<^verbatim>\<open>{"a": false, "b": 1}\<close>.
\<close>

definition record_visit :: "nat \<Rightarrow> node_visitor" where
  "record_visit log value k rootObject jsonPointer h =
     (Inr Undefined,
      (case lookup_cell h log of
         Some (Array visited) \<Rightarrow> h[log := Array (visited @ [Str jsonPointer])]
       | _ \<Rightarrow> h))"

definition walk_doc :: heap where
  "walk_doc = [Object [(''a'', Ref 1), (''c'', Num 2)], Object [(''b'', Num 1)], Array []]"

definition false_doc :: heap where
  "false_doc = [Object [(''a'', Bool False), (''b'', Num 1)], Array []]"

text \<open>
  Visitors for \<^verbatim>\<open>mapLayout\<close> and two layouts. \<open>edit_visitor\<close> is
  \<^verbatim>\<open>(item) => item === 'b' ? undefined : item === 'c' ? ['c1', 'c2'] : item\<close>: it deletes
  \<^verbatim>\<open>'b'\<close> and expands \<^verbatim>\<open>'c'\<close> into two elements. \<open>record_path log fn\<close> pushes the path it
  is called with on the array at \<open>log\<close> and then does what \<open>fn\<close> does. The layouts are
  \<^verbatim>\<open>['a', 'b', 'c']\<close> (followed by an empty array for the recorded paths) and
  \<^verbatim>\<open>[{items: ['a', 'b', 'c']}]\<close>.
\<close>

definition edit_visitor :: layout_visitor where
  "edit_visitor item index rootLayout path h =
     (if item = Str ''b'' then (Inr Undefined, h)
      else if item = Str ''c''
      then (Inr (Ref (fst (alloc (Array [Str ''c1'', Str ''c2'']) h))),
            snd (alloc (Array [Str ''c1'', Str ''c2'']) h))
      else (Inr item, h))"

definition record_path :: "nat \<Rightarrow> layout_visitor \<Rightarrow> layout_visitor" where
  "record_path log fn item index rootLayout path h =
     fn item index rootLayout path
       (case lookup_cell h log of
          Some (Array paths) \<Rightarrow> h[log := Array (paths @ [Str path])]
        | _ \<Rightarrow> h)"

definition flat_layout :: heap where
  "flat_layout = [Array [Str ''a'', Str ''b'', Str ''c''], Array []]"


text \<open>
  The loop as the spec words its guarantee: the index reported for an element is the
  position it takes in the output, that is the number of elements put out before it.
\<close>

fun mapLayout_loop_spec ::
  "(val \<Rightarrow> string \<Rightarrow> heap \<Rightarrow> (val, heap) outcome) \<Rightarrow> this_binding \<Rightarrow> layout_visitor \<Rightarrow>
   val \<Rightarrow> val \<Rightarrow> string \<Rightarrow> nat list \<Rightarrow> val list \<Rightarrow> heap \<Rightarrow> (val list, heap) outcome" where
  "mapLayout_loop_spec self this fn layout rootLayout path [] newLayout h = Some (Inr newLayout, h)"
| "mapLayout_loop_spec self this fn layout rootLayout path (index # rest) newLayout h =
     (let item = array_at h layout index;
          position = int (length newLayout);
          newPath = path @ ''/'' @ show_int position
      in case mapLayout_children self this item newPath h of
           None \<Rightarrow> None
         | Some (Inl e, h1) \<Rightarrow> Some (Inl e, h1)
         | Some (Inr u, h1) \<Rightarrow>
             (case fn item position rootLayout newPath h1 of
                (Inl e, h2) \<Rightarrow> Some (Inl e, h2)
              | (Inr newItem, h2) \<Rightarrow>
                  mapLayout_loop_spec self this fn layout rootLayout path rest
                    (if newItem = Undefined then newLayout
                     else if isArray h2 newItem then newLayout @ elems h2 newItem
                     else newLayout @ [newItem]) h2))"



text \<open>
  An element makes \<^verbatim>\<open>mapLayout\<close> recurse when it is an object whose \<^verbatim>\<open>items\<close> or
  \<^verbatim>\<open>tabs\<close> is an array. A store keeps a layout when the layout has the same elements in
  it and each of them makes \<^verbatim>\<open>mapLayout\<close> recurse in it exactly when it did before. A
  visitor is steady on a layout when, called in a store that keeps the layout, it returns
  a value (it does not throw) and leaves a store that keeps the layout; what else it
  changes in the store is free. \<open>mark_visitor\<close> is
  \<^verbatim>\<open>(item) => { if (isObject(item)) item.seen = true; return item; }\<close>; the layouts
  are \<^verbatim>\<open>[{key: 'a'}, {items: ['b']}]\<close> and \<^verbatim>\<open>[{key: 'a'}, {key: 'b'}]\<close>.
\<close>

definition needs_recursion :: "heap \<Rightarrow> val \<Rightarrow> bool" where
  "needs_recursion h item =
     (isObject h item \<and>
      (isArray h (read_prop h item ''items'') \<or> isArray h (read_prop h item ''tabs'')))"




definition mixed_layout :: heap where
  "mixed_layout =
     [Array [Ref 1, Ref 2], Object [(''key'', Str ''a'')], Object [(''items'', Ref 3)],
      Array [Str ''b'']]"


text \<open>
  \<open>strip_visitor\<close> is \<^verbatim>\<open>(item, i, root) => { root[1].items = undefined; return item; }\<close>:
  a visitor that is not steady on the first of these layouts.
\<close>

definition strip_visitor :: layout_visitor where
  "strip_visitor item index rootLayout path h =
     (Inr item,
      (case array_at h rootLayout 1 of Ref a \<Rightarrow> set_prop h a ''items'' Undefined | _ \<Rightarrow> h))"


text \<open>
  Stores of the runs on these layouts: \<^verbatim>\<open>['a', 'b', 'c']\<close> after the visitor has recorded
  one and two paths, and the nested layout after \<^verbatim>\<open>mapLayout\<close> with \<open>edit_visitor\<close>.
\<close>

definition after_a :: heap where
  "after_a = [Array [Str ''a'', Str ''b'', Str ''c''], Array [Str ''/0'']]"

definition after_b :: heap where
  "after_b = [Array [Str ''a'', Str ''b'', Str ''c''], Array [Str ''/0'', Str ''/1'']]"


section \<open>Properties of isInputRequired\<close>

lemma required_of_spec:
  "segs \<noteq> [] \<Longrightarrow> required_of gs h schema segs = required_list_spec gs h schema segs"
proof (cases "rev segs")
  case Nil
  assume "segs \<noteq> []"
  with Nil show ?thesis by simp
next
  case (Cons k r)
  then have segs: "segs = rev r @ [k]" by (metis rev_rev_ident rev.simps(2))
  show ?thesis
  proof (cases r)
    case Nil
    with segs show ?thesis by (simp add: required_of_def required_list_spec_def)
  next
    case (Cons p anc)
    with segs show ?thesis
      by (simp add: required_of_def required_list_spec_def Let_def butlast_append)
  qed
qed

lemma parse_list_x: "parse ''/list/-/x'' = [''list'', ''-'', ''x'']"
  by (simp add: parse_def compile_def)

text \<open>
  C9. \<^verbatim>\<open>isInputRequired(schema, pointer)\<close> returns true if and only if the schema is an
  object, the pointer has at least one segment, and the required list located at the
  pointer's parent path (the \<^verbatim>\<open>items\<close> sub-schema of the ancestor when the parent path
  ends in \<^verbatim>\<open>-\<close>, the schema at the parent path otherwise, the top-level schema for a
  pointer of one segment) is an array that holds the last segment as a string, compared
  exactly. It returns false when the schema is not an object or the pointer has no
  segment.
\<close>

theorem isInputRequired_iff:
  "(fst (isInputRequired gs h schema pointer) = Inr True \<longleftrightarrow>
      isObject h schema \<and> parse pointer \<noteq> [] \<and>
      (\<exists>requiredList. required_list_spec gs h schema (parse pointer) = Inr requiredList \<and>
         isArray h requiredList \<and> Str (last (parse pointer)) \<in> set (elems h requiredList))) \<and>
   (\<not> isObject h schema \<or> parse pointer = [] \<longrightarrow>
      fst (isInputRequired gs h schema pointer) = Inr False)"
proof (cases "isObject h schema \<and> parse pointer \<noteq> []")
  case False
  then show ?thesis by (auto simp: isInputRequired_def Let_def)
next
  case True
  then have "required_of gs h schema (parse pointer) = required_list_spec gs h schema (parse pointer)"
    by (simp add: required_of_spec)
  with True show ?thesis
    by (auto simp: isInputRequired_def Let_def split: sum.splits)
qed

theorem isInputRequired_iff_witness:
  "isObject list_schema (Ref 0) \<and> parse ''/list/-/x'' \<noteq> [] \<and>
   fst (isInputRequired plain_getSchema list_schema (Ref 0) ''/list/-/x'') = Inr True \<and>
   fst (isInputRequired plain_getSchema list_schema (Str ''s'') ''/list/-/x'') = Inr False"
proof -
  have o: "isObject list_schema (Ref 0)"
    by (simp add: isObject_def lookup_cell_def list_schema_def)
  have n: "\<not> isObject list_schema (Str ''s'')"
    by (simp add: isObject_def)
  have r: "required_list_spec plain_getSchema list_schema (Ref 0) (parse ''/list/-/x'') = Inr (Ref 3)"
    by (simp add: parse_list_x required_list_spec_def plain_getSchema_def get_prop_def
        own_props_def length_prop_def lookup_cell_def list_schema_def isObject_def isArray_def)
  have a: "isArray list_schema (Ref 3)"
    "Str (last (parse ''/list/-/x'')) \<in> set (elems list_schema (Ref 3))"
    by (simp_all add: parse_list_x isArray_def elems_def lookup_cell_def list_schema_def)
  from isInputRequired_iff [of plain_getSchema list_schema "Ref 0" "''/list/-/x''"]
    isInputRequired_iff [of plain_getSchema list_schema "Str ''s''" "''/list/-/x''"]
    o n r a show ?thesis by (simp add: parse_list_x)
qed
section \<open>Properties of resolveSchemaReference\<close>

lemma compile_root: "compile '''' = ''''"
  by (simp add: compile_def)

lemma root_self_reference_first:
  "c '''' = None \<Longrightarrow>
   resolveSchemaReference (Suc n) this (Str '''') schema circularOK (h, c) =
     (if circularOK
      then Some (Inr schema, (h, c('''' \<mapsto> \<lparr>isCircular = True, entry_schema = Undefined\<rparr>)))
      else Some (Inr (Ref (length h)),
             (h @ [Object [(''$ref'', Str '''')]],
              c('''' \<mapsto> \<lparr>isCircular = True, entry_schema = Undefined\<rparr>))))"
  by (simp add: reference_pointer_def compile_root placeholder_def alloc_def)

lemma root_self_reference_again_placeholder:
  "c '''' = Some \<lparr>isCircular = True, entry_schema = Undefined\<rparr> \<Longrightarrow>
   resolveSchemaReference (Suc n) this (Str '''') schema False (h, c) =
     Some (Inr (Ref (length h)), (h @ [Object [(''$ref'', Str '''')]], c))"
  by (simp add: reference_pointer_def compile_root placeholder_def alloc_def)

text \<open>
  C1. The spec: whatever the state of the cache, resolving the root pointer \<^verbatim>\<open>""\<close> gives
  the root schema when \<^verbatim>\<open>circularOK\<close> is true, also on a repeated resolution against the
  same cache. The code: the first resolution against an empty cache returns the schema
  and leaves the entry \<^verbatim>\<open>{ 'isCircular': true }\<close>; the second resolution against that
  cache finds the entry and returns its \<^verbatim>\<open>schema\<close> property, which is undefined.
\<close>

theorem root_self_reference_repeated:
  "resolveSchemaReference (Suc n) this (Str '''') schema True (h, Map.empty) =
     Some (Inr schema, (h, [''''  \<mapsto> \<lparr>isCircular = True, entry_schema = Undefined\<rparr>])) \<and>
   resolveSchemaReference (Suc m) this (Str '''') schema True
       (h, [''''  \<mapsto> \<lparr>isCircular = True, entry_schema = Undefined\<rparr>]) =
     Some (Inr Undefined, (h, [''''  \<mapsto> \<lparr>isCircular = True, entry_schema = Undefined\<rparr>]))"
  by (simp add: reference_pointer_def compile_root)

lemma lookup_cell_append_new [simp]: "lookup_cell (h @ [c]) (length h) = Some c"
  by (simp add: lookup_cell_def)

lemma lookup_cell_append_old: "a \<noteq> length h \<Longrightarrow> lookup_cell (h @ [c]) a = lookup_cell h a"
  by (auto simp: lookup_cell_def nth_append)

lemma lookup_cell_fresh [simp]: "lookup_cell h (length h) = None"
  by (simp add: lookup_cell_def)

lemma set_prop_new:
  "set_prop (h @ [Object kvs]) (length h) k x = h @ [Object (AList.update k x kvs)]"
  by (simp add: set_prop_def)

lemma assign_props:
  "foldl (\<lambda>h' (k, x). set_prop h' (length h) k x) (h @ [Object kvs]) ps =
   h @ [Object (foldl (\<lambda>al (k, x). AList.update k x al) kvs ps)]"
  by (induction ps arbitrary: kvs) (auto simp: set_prop_new)

lemma map_of_foldl_update:
  "map_of (foldl (\<lambda>al (k, x). AList.update k x al) kvs ps) = map_of (rev ps @ kvs)"
proof (induction ps arbitrary: kvs)
  case Nil
  show ?case by simp
next
  case (Cons p ps)
  obtain k x where p: "p = (k, x)" by (cases p)
  show ?case by (simp add: Cons.IH p AList.update_conv')
qed

lemma distinct_foldl_update:
  "distinct (map fst kvs) \<Longrightarrow>
   distinct (map fst (foldl (\<lambda>al (k, x). AList.update k x al) kvs ps))"
  by (induction ps arbitrary: kvs) (auto simp: AList.distinct_update)

lemma foldl_update_own:
  "distinct (map fst kvs) \<Longrightarrow> set ps \<subseteq> set kvs \<Longrightarrow>
   foldl (\<lambda>al (k, x). AList.update k x al) kvs ps = kvs"
proof (induction ps)
  case Nil
  show ?case by simp
next
  case (Cons p ps)
  obtain k x where p: "p = (k, x)" by (cases p)
  with Cons.prems have "map_of kvs k = Some x" by simp
  then have "AList.update k x kvs = kvs" by (rule AList.update_triv)
  with Cons p show ?case by simp
qed

lemma own_props_append_old:
  "v \<noteq> Ref (length h) \<Longrightarrow> own_props (h @ [c]) v = own_props h v"
  by (cases v) (auto simp: own_props_def lookup_cell_append_old)

lemma own_props_dangling [simp]: "own_props h (Ref (length h)) = []"
  by (simp add: own_props_def)

lemma Object_assign_new:
  "distinct (map fst kvs) \<Longrightarrow>
   \<exists>kvs'. Object_assign (h @ [Object kvs]) (length h) v = h @ [Object kvs'] \<and>
          distinct (map fst kvs') \<and> map_of kvs' = map_of (rev (own_props h v) @ kvs)"
proof (cases "v = Ref (length h)")
  case True
  assume d: "distinct (map fst kvs)"
  have "own_props (h @ [Object kvs]) v = kvs" using True by (simp add: own_props_def)
  then have "Object_assign (h @ [Object kvs]) (length h) v = h @ [Object kvs]"
    using d by (simp add: Object_assign_def assign_props foldl_update_own)
  with d True show ?thesis by simp
next
  case False
  assume d: "distinct (map fst kvs)"
  from False have "Object_assign (h @ [Object kvs]) (length h) v =
      h @ [Object (foldl (\<lambda>al (k, x). AList.update k x al) kvs (own_props h v))]"
    by (simp add: Object_assign_def own_props_append_old assign_props)
  with d show ?thesis by (simp add: distinct_foldl_update map_of_foldl_update)
qed

lemma merge_members:
  "distinct (map fst kvs) \<Longrightarrow>
   \<exists>kvs'. foldl (\<lambda>h' v2. Object_assign h' (length h) v2) (h @ [Object kvs]) vs = h @ [Object kvs'] \<and>
          distinct (map fst kvs') \<and>
          map_of kvs' = map_of (rev (concat (map (own_props h) vs)) @ kvs)"
proof (induction vs arbitrary: kvs)
  case Nil
  then show ?case by simp
next
  case (Cons v vs)
  from Object_assign_new [OF Cons.prems, of h v] obtain kvs1 where
    1: "Object_assign (h @ [Object kvs]) (length h) v = h @ [Object kvs1]"
    and d1: "distinct (map fst kvs1)"
    and m1: "map_of kvs1 = map_of (rev (own_props h v) @ kvs)" by blast
  from Cons.IH [OF d1] obtain kvs' where
    2: "foldl (\<lambda>h' v2. Object_assign h' (length h) v2) (h @ [Object kvs1]) vs = h @ [Object kvs']"
    and d2: "distinct (map fst kvs')"
    and m2: "map_of kvs' = map_of (rev (concat (map (own_props h) vs)) @ kvs1)" by blast
  have "map_of kvs' = map_of (rev (concat (map (own_props h) (v # vs))) @ kvs)"
    using m1 m2 by (simp add: map_of_append)
  with 1 2 d2 show ?case by simp
qed

lemmas store_eval = reference_pointer_def compile_def parse_def JsonPointer_get_def isObject_def
  isArray_def lookup_cell_def own_props_def length_prop_def read_prop_def has_key_def
  is_allOf_wrapper_def elems_def alloc_def Object_assign_def set_prop_def placeholder_def
  Let_def array_at_def

lemma allOf_example:
  "resolveSchemaReference (Suc (Suc n)) ThisModule (Str ''/defs/w'') (Ref 0) False
     (allOf_schema, Map.empty) =
   Some (Inr (Ref 7), (allOf_schema @ [Object [(''a'', Num 1), (''b'', Num 2)]],
      [''/defs/b'' \<mapsto> \<lparr>isCircular = False, entry_schema = Ref 6\<rparr>,
       ''/defs/w'' \<mapsto> \<lparr>isCircular = False, entry_schema = Ref 7\<rparr>]))"
  by (simp add: store_eval allOf_schema_def eval_nat_numeral)












lemma resolve_members_keeps_entry:
  assumes self: "\<And>object s res s'. self object s = Some (res, s') \<Longrightarrow> snd s p = Some e \<Longrightarrow> snd s' p = Some e"
  shows "resolve_members self this ms s = Some (res, s') \<Longrightarrow> snd s p = Some e \<Longrightarrow> snd s' p = Some e"
proof (induction ms arbitrary: s res s')
  case Nil
  then show ?case by simp
next
  case (Cons m ms)
  show ?case
  proof (cases this)
    case ThisUndefined
    with Cons.prems show ?thesis by simp
  next
    case ThisModule
    show ?thesis
    proof (cases "self m s")
      case None
      with Cons.prems ThisModule show ?thesis by simp
    next
      case (Some a)
      obtain r1 s1 where a: "a = (r1, s1)" by (cases a)
      from self [of m s r1 s1] Some a Cons.prems have s1: "snd s1 p = Some e" by simp
      show ?thesis
      proof (cases r1)
        case (Inl err)
        with Cons.prems ThisModule Some a s1 show ?thesis by simp
      next
        case (Inr v)
        show ?thesis
        proof (cases "resolve_members self this ms s1")
          case None
          with Cons.prems ThisModule Some a Inr show ?thesis by simp
        next
          case (Some b)
          obtain r2 s2 where b: "b = (r2, s2)" by (cases b)
          from Cons.IH [of s1 r2 s2] Some b s1 have s2: "snd s2 p = Some e" by simp
          from Cons.prems ThisModule \<open>self m s = Some a\<close> a Inr Some b s2 show ?thesis
            by (cases r2) auto
        qed
      qed
    qed
  qed
qed

lemma resolve_keeps_entry:
  "resolveSchemaReference n this r schema ok s = Some (res, s') \<Longrightarrow> snd s p = Some e \<Longrightarrow>
   snd s' p = Some e"
proof (induction n arbitrary: r s res s')
  case 0
  then show ?case by simp
next
  case (Suc n)
  note members = resolve_members_keeps_entry
    [of "\<lambda>object. resolveSchemaReference n this object schema ok" p e this, OF Suc.IH]
  show ?case
  proof (cases "reference_pointer (fst s) r")
    case None
    with Suc.prems show ?thesis by simp
  next
    case (Some sp)
    show ?thesis
    proof (cases "snd s sp")
      case (Some e')
      with Suc.prems \<open>reference_pointer (fst s) r = Some sp\<close> show ?thesis
        by (auto split: if_splits)
    next
      case None
      with Suc.prems have ne: "sp \<noteq> p" by auto
      show ?thesis
      proof (cases "sp = '''' \<or> take 4 sp = ''http'' \<or> \<not> is_allOf_wrapper (fst s) (JsonPointer_get (fst s) schema sp)")
        case True
        with Suc.prems \<open>reference_pointer (fst s) r = Some sp\<close> None ne show ?thesis
          by (auto simp: Let_def split: if_splits)
      next
        case False
        let ?ms = "elems (fst s) (read_prop (fst s) (JsonPointer_get (fst s) schema sp) ''allOf'')"
        show ?thesis
        proof (cases "resolve_members (\<lambda>object. resolveSchemaReference n this object schema ok) this ?ms s")
          case None
          with Suc.prems \<open>reference_pointer (fst s) r = Some sp\<close> \<open>snd s sp = None\<close> False
          show ?thesis by (simp add: Let_def)
        next
          case (Some a)
          obtain r1 s1 where a: "a = (r1, s1)" by (cases a)
          from members [where ms = ?ms and s = s and res = r1 and s' = s1] Some a Suc.prems have "snd s1 p = Some e" by simp
          with Suc.prems \<open>reference_pointer (fst s) r = Some sp\<close> \<open>snd s sp = None\<close> False Some a ne
          show ?thesis by (cases r1) (auto simp: Let_def)
        qed
      qed
    qed
  qed
qed

text \<open>The resolver only allocates: the store it leaves extends the store it was given.\<close>

lemma resolve_members_extends:
  assumes self: "\<And>object s res s'. self object s = Some (res, s') \<Longrightarrow> \<exists>ext. fst s' = fst s @ ext"
  shows "resolve_members self this ms s = Some (res, s') \<Longrightarrow> \<exists>ext. fst s' = fst s @ ext"
proof (induction ms arbitrary: s res s')
  case Nil
  then show ?case by simp
next
  case (Cons m ms)
  show ?case
  proof (cases this)
    case ThisUndefined
    with Cons.prems show ?thesis by simp
  next
    case ThisModule
    show ?thesis
    proof (cases "self m s")
      case None
      with Cons.prems ThisModule show ?thesis by simp
    next
      case (Some a)
      obtain r1 s1 where a: "a = (r1, s1)" by (cases a)
      from self [of m s r1 s1] Some a obtain e1 where s1: "fst s1 = fst s @ e1" by auto
      show ?thesis
      proof (cases r1)
        case (Inl err)
        with Cons.prems ThisModule Some a s1 show ?thesis by simp
      next
        case (Inr v)
        show ?thesis
        proof (cases "resolve_members self this ms s1")
          case None
          with Cons.prems ThisModule Some a Inr show ?thesis by simp
        next
          case (Some b)
          obtain r2 s2 where b: "b = (r2, s2)" by (cases b)
          from Cons.IH [of s1 r2 s2] Some b obtain e2 where "fst s2 = fst s1 @ e2" by auto
          with s1 have s2: "fst s2 = fst s @ (e1 @ e2)" by simp
          from Cons.prems ThisModule \<open>self m s = Some a\<close> a Inr Some b have "s' = s2"
            by (cases r2) auto
          with s2 show ?thesis by blast
        qed
      qed
    qed
  qed
qed

lemma resolve_extends:
  "resolveSchemaReference n this r schema ok s = Some (res, s') \<Longrightarrow> \<exists>ext. fst s' = fst s @ ext"
proof (induction n arbitrary: r s res s')
  case 0
  then show ?case by simp
next
  case (Suc n)
  have self: "\<exists>ext. fst s' = fst s @ ext"
    if "resolveSchemaReference n this object schema ok s = Some (res, s')" for object s res s'
    using that by (rule Suc.IH)
  have members: "\<exists>ext. fst s' = fst s @ ext"
    if "resolve_members (\<lambda>object. resolveSchemaReference n this object schema ok) this ms s =
        Some (res, s')" for ms s res s'
    using self that
    by (rule resolve_members_extends
        [where self = "\<lambda>object. resolveSchemaReference n this object schema ok"])
  show ?case
  proof (cases "reference_pointer (fst s) r")
    case None
    with Suc.prems show ?thesis by simp
  next
    case (Some sp)
    show ?thesis
    proof (cases "snd s sp")
      case (Some e')
      with Suc.prems \<open>reference_pointer (fst s) r = Some sp\<close> show ?thesis
        by (auto simp: placeholder_def alloc_def split: if_splits)
    next
      case None
      show ?thesis
      proof (cases "sp = '''' \<or> take 4 sp = ''http'' \<or>
          \<not> is_allOf_wrapper (fst s) (JsonPointer_get (fst s) schema sp)")
        case True
        with Suc.prems \<open>reference_pointer (fst s) r = Some sp\<close> None show ?thesis
          by (auto simp: Let_def placeholder_def alloc_def split: if_splits)
      next
        case False
        let ?ms = "elems (fst s) (read_prop (fst s) (JsonPointer_get (fst s) schema sp) ''allOf'')"
        show ?thesis
        proof (cases "resolve_members (\<lambda>object. resolveSchemaReference n this object schema ok) this ?ms s")
          case None
          with Suc.prems \<open>reference_pointer (fst s) r = Some sp\<close> \<open>snd s sp = None\<close> False
          show ?thesis by (simp add: Let_def)
        next
          case (Some a)
          obtain r1 s1 where a: "a = (r1, s1)" by (cases a)
          from members [of ?ms s r1 s1] Some a
          obtain e1 where s1: "fst s1 = fst s @ e1" by auto
          show ?thesis
          proof (cases r1)
            case (Inl err)
            with Suc.prems \<open>reference_pointer (fst s) r = Some sp\<close> \<open>snd s sp = None\<close> False Some a s1
            show ?thesis by (auto simp: Let_def)
          next
            case (Inr vs)
            from merge_members [of "[]" "fst s1" vs] obtain kvs where
              "foldl (\<lambda>h' v2. Object_assign h' (length (fst s1)) v2) (fst s1 @ [Object []]) vs =
               fst s1 @ [Object kvs]" by auto
            with Suc.prems \<open>reference_pointer (fst s) r = Some sp\<close> \<open>snd s sp = None\<close> False Some a
              Inr have "fst s' = fst s1 @ [Object kvs]"
              by (auto simp: Let_def alloc_def)
            with s1 show ?thesis by simp
          qed
        qed
      qed
    qed
  qed
qed

text \<open>What an extension of the store keeps.\<close>

lemma lookup_cell_extend:
  "lookup_cell h a = Some c \<Longrightarrow> lookup_cell (h @ ext) a = Some c"
  by (auto simp: lookup_cell_def nth_append split: if_splits)

lemma isObject_extend: "isObject h v \<Longrightarrow> isObject (h @ ext) v"
  by (auto simp: isObject_def lookup_cell_extend split: val.splits option.splits cell.splits)

lemma isArray_extend: "isArray h v \<Longrightarrow> isArray (h @ ext) v"
  by (auto simp: isArray_def lookup_cell_extend split: val.splits option.splits cell.splits)

lemma own_props_extend:
  "isObject h v \<or> isArray h v \<Longrightarrow> own_props (h @ ext) v = own_props h v"
  by (auto simp: isObject_def isArray_def own_props_def lookup_cell_extend
      split: val.splits option.splits cell.splits)

lemma length_prop_extend:
  "isObject h v \<or> isArray h v \<Longrightarrow> length_prop (h @ ext) v = length_prop h v"
  by (auto simp: isObject_def isArray_def length_prop_def lookup_cell_extend
      split: val.splits option.splits cell.splits)

lemma read_prop_extend:
  "isObject h v \<or> isArray h v \<Longrightarrow> read_prop (h @ ext) v k = read_prop h v k"
  by (simp add: read_prop_def own_props_extend length_prop_extend)

lemma has_key_extend:
  "isObject h v \<or> isArray h v \<Longrightarrow> has_key (h @ ext) v k = has_key h v k"
  by (simp add: has_key_def own_props_extend length_prop_extend)

lemma elems_extend: "isArray h v \<Longrightarrow> elems (h @ ext) v = elems h v"
  by (auto simp: isArray_def elems_def lookup_cell_extend
      split: val.splits option.splits cell.splits)

lemma get_segments_extend:
  "isObject h (get_segments h v ks) \<Longrightarrow> get_segments (h @ ext) v ks = get_segments h v ks"
proof (induction ks arbitrary: v)
  case Nil
  show ?case by simp
next
  case (Cons k ks)
  show ?case
  proof (cases "isObject h v \<or> isArray h v")
    case False
    with Cons.prems show ?thesis by (simp add: isObject_def)
  next
    case True
    then have live: "isObject (h @ ext) v \<or> isArray (h @ ext) v"
      using isObject_extend isArray_extend by blast
    show ?thesis
    proof (cases "map_of (own_props h v) k")
      case None
      with True Cons.prems show ?thesis by (simp add: isObject_def)
    next
      case (Some x)
      with True Cons.prems have "isObject h (get_segments h x ks)" by simp
      then have "get_segments (h @ ext) x ks = get_segments h x ks" by (rule Cons.IH)
      with True live Some show ?thesis by (simp add: own_props_extend)
    qed
  qed
qed

lemma wrapper_extend:
  assumes "is_allOf_wrapper h (JsonPointer_get h schema x)"
  shows "JsonPointer_get (h @ ext) schema x = JsonPointer_get h schema x"
    and "is_allOf_wrapper (h @ ext) (JsonPointer_get h schema x)"
    and "elems (h @ ext) (read_prop (h @ ext) (JsonPointer_get h schema x) ''allOf'') =
         elems h (read_prop h (JsonPointer_get h schema x) ''allOf'')"
proof -
  let ?item = "JsonPointer_get h schema x"
  from assms have obj: "isObject h ?item" and arr: "isArray h (read_prop h ?item ''allOf'')"
    by (simp_all add: is_allOf_wrapper_def)
  from obj show "JsonPointer_get (h @ ext) schema x = ?item"
    unfolding JsonPointer_get_def by (rule get_segments_extend)
  from assms obj arr show "is_allOf_wrapper (h @ ext) ?item"
    by (simp add: is_allOf_wrapper_def isObject_extend own_props_extend has_key_extend
        read_prop_extend isArray_extend)
  from obj arr show "elems (h @ ext) (read_prop (h @ ext) ?item ''allOf'') =
      elems h (read_prop h ?item ''allOf'')"
    by (simp add: read_prop_extend elems_extend)
qed

lemma reference_pointer_extend:
  "reference_pointer h object = Some y \<Longrightarrow> reference_pointer (h @ ext) object = Some y"
proof (cases "\<exists>s. object = Str s")
  case True
  assume "reference_pointer h object = Some y"
  with True show ?thesis by (auto simp: reference_pointer_def)
next
  case False
  assume r: "reference_pointer h object = Some y"
  with False have obj: "isObject h object"
    by (cases object) (auto simp: reference_pointer_def split: if_splits)
  with r False show ?thesis
    by (cases object)
      (auto simp: reference_pointer_def isObject_extend own_props_extend has_key_extend
        read_prop_extend split: if_splits)
qed

lemma refers_extend: "refers h schema x y \<Longrightarrow> refers (h @ ext) schema x y"
  unfolding refers_def
  using wrapper_extend [of h schema x ext] reference_pointer_extend [of h _ y ext]
  by auto

text \<open>
  Pointers in progress are not written: a call that comes back to one of them does not
  return a value, so the entry of a pointer is written once.
\<close>

lemma members_in_progress:
  assumes self: "\<And>r h c res h' c' S. self r (h, c) = Some (res, (h', c')) \<Longrightarrow>
        in_progress h schema c S (reference_pointer h r) \<Longrightarrow>
        (\<forall>x \<in> S. c' x = None) \<and>
        (\<forall>cur \<in> S. reference_pointer h r = Some cur \<longrightarrow> (\<forall>v. res \<noteq> Inr v))"
    and ext: "\<And>r s res s'. self r s = Some (res, s') \<Longrightarrow> \<exists>ext. fst s' = fst s @ ext"
    and plain: "\<And>r h c res h' c'. self r (h, c) = Some (res, (h', c')) \<Longrightarrow>
        reference_pointer h r = None \<Longrightarrow> c' = c"
  shows "resolve_members self this ms (h, c) = Some (res, (h1, c1)) \<Longrightarrow>
         \<forall>x \<in> insert cur S. c x = None \<Longrightarrow>
         \<forall>x \<in> S. \<exists>y \<in> insert cur S. refers h schema x y \<Longrightarrow>
         cur \<noteq> '''' \<Longrightarrow> take 4 cur \<noteq> ''http'' \<Longrightarrow>
         is_allOf_wrapper h (JsonPointer_get h schema cur) \<Longrightarrow>
         set ms \<subseteq> set (elems h (read_prop h (JsonPointer_get h schema cur) ''allOf'')) \<Longrightarrow>
         (\<forall>x \<in> insert cur S. c1 x = None) \<and>
         ((\<exists>m \<in> set ms. \<exists>y \<in> insert cur S. reference_pointer h m = Some y) \<longrightarrow>
            (\<forall>vs. res \<noteq> Inr vs))"
proof (induction ms arbitrary: h c res)
  case Nil
  then show ?case by simp
next
  case (Cons m ms)
  let ?S = "insert cur S"
  show ?case
  proof (cases this)
    case ThisUndefined
    with Cons.prems(1) have "res = Inl TypeError" and "c1 = c" by simp_all
    with Cons.prems(2) show ?thesis by simp
  next
    case ThisModule
    show ?thesis
    proof (cases "self m (h, c)")
      case None
      with Cons.prems(1) ThisModule show ?thesis by simp
    next
      case (Some a)
      obtain r2 h2 c2 where a: "a = (r2, (h2, c2))" by (cases a) auto
      from ext [of m "(h, c)" r2 "(h2, c2)"] Some a obtain e where h2: "h2 = h @ e" by auto
      have first: "(\<forall>x \<in> ?S. c2 x = None) \<and>
          (\<forall>y \<in> ?S. reference_pointer h m = Some y \<longrightarrow> (\<forall>v. r2 \<noteq> Inr v))"
      proof (cases "reference_pointer h m")
        case None
        from plain [of m h c r2 h2 c2] Some a None have "c2 = c" by simp
        with Cons.prems(2) None show ?thesis by simp
      next
        case (Some y)
        have "in_progress h schema c ?S (Some y)"
          unfolding in_progress_def
        proof (intro conjI ballI)
          fix x assume "x \<in> ?S"
          with Cons.prems(2) show "c x = None" by (rule bspec)
        next
          fix x assume x: "x \<in> ?S"
          show "\<exists>y'. (y' \<in> ?S \<or> Some y = Some y') \<and> refers h schema x y'"
          proof (cases "x = cur")
            case True
            from Cons.prems(7) have "m \<in> set (elems h (read_prop h (JsonPointer_get h schema cur) ''allOf''))"
              by simp
            with Cons.prems(4,5,6) Some True have "refers h schema x y"
              unfolding refers_def by blast
            then show ?thesis by blast
          next
            case False
            with x Cons.prems(3) show ?thesis by blast
          qed
        qed
        with self [of m h c r2 h2 c2 ?S] \<open>self m (h, c) = Some a\<close> a Some
        show ?thesis by simp
      qed
      show ?thesis
      proof (cases r2)
        case (Inl err)
        with Cons.prems(1) ThisModule Some a have "res = Inl err" and "c1 = c2" by simp_all
        with first show ?thesis by simp
      next
        case (Inr v)
        show ?thesis
        proof (cases "resolve_members self this ms (h2, c2)")
          case None
          with Cons.prems(1) ThisModule \<open>self m (h, c) = Some a\<close> a Inr show ?thesis by simp
        next
          case (Some b)
          obtain r3 h3 c3 where b: "b = (r3, (h3, c3))" by (cases b) auto
          from Cons.prems(1) ThisModule \<open>self m (h, c) = Some a\<close> a Inr Some b
          have eq: "(case r3 of Inl e \<Rightarrow> Some (Inl e, (h3, c3))
                     | Inr vs \<Rightarrow> Some (Inr (v # vs), (h3, c3))) = Some (res, (h1, c1))"
            by simp
          from eq have c1: "c3 = c1" by (cases r3) simp_all
          from eq have h1: "h3 = h1" by (cases r3) simp_all
          from eq have res: "res = (case r3 of Inl e \<Rightarrow> Inl e | Inr vs \<Rightarrow> Inr (v # vs))"
            by (cases r3) auto
          have run: "resolve_members self this ms (h2, c2) = Some (r3, (h1, c1))"
            unfolding Some b c1 h1 ..
          have b3: "\<forall>x \<in> S. \<exists>y \<in> ?S. refers h2 schema x y"
            using Cons.prems(3) refers_extend [of h schema _ _ e] unfolding h2 by blast
          have ms: "set ms \<subseteq> set (elems h2 (read_prop h2 (JsonPointer_get h2 schema cur) ''allOf''))"
            using Cons.prems(7) wrapper_extend [OF Cons.prems(6), of e] unfolding h2 by simp
          have w2: "is_allOf_wrapper h2 (JsonPointer_get h2 schema cur)"
            using wrapper_extend [OF Cons.prems(6), of e] unfolding h2 by simp
          from first have a2: "\<forall>x \<in> ?S. c2 x = None" by (rule conjunct1)
          have rest: "(\<forall>x \<in> ?S. c1 x = None) \<and>
             ((\<exists>m \<in> set ms. \<exists>y \<in> ?S. reference_pointer h2 m = Some y) \<longrightarrow> (\<forall>vs. r3 \<noteq> Inr vs))"
            by (rule Cons.IH [OF run a2 b3 Cons.prems(4,5) w2 ms])
          have no_return: "\<forall>vs. res \<noteq> Inr vs"
            if "\<exists>m' \<in> set (m # ms). \<exists>y \<in> ?S. reference_pointer h m' = Some y"
          proof -
            from that first Inr have "\<exists>m' \<in> set ms. \<exists>y \<in> ?S. reference_pointer h m' = Some y"
              by auto
            then have "\<exists>m' \<in> set ms. \<exists>y \<in> ?S. reference_pointer h2 m' = Some y"
              using reference_pointer_extend [of h _ _ e] unfolding h2 by blast
            with rest have "\<forall>vs. r3 \<noteq> Inr vs" by blast
            with res show ?thesis by (cases r3) auto
          qed
          show ?thesis
          proof (intro conjI impI)
            from rest show "\<forall>x \<in> ?S. c1 x = None" by (rule conjunct1)
          next
            assume "\<exists>m' \<in> set (m # ms). \<exists>y \<in> ?S. reference_pointer h m' = Some y"
            then show "\<forall>vs. res \<noteq> Inr vs" by (rule no_return)
          qed
        qed
      qed
    qed
  qed
qed

lemma resolve_plain:
  "resolveSchemaReference n this r schema ok (h, c) = Some (res, (h', c')) \<Longrightarrow>
   reference_pointer h r = None \<Longrightarrow> c' = c"
  by (cases n) simp_all

lemma in_progress_kept:
  "resolveSchemaReference n this r schema ok (h, c) = Some (res, (h', c')) \<Longrightarrow>
   in_progress h schema c S (reference_pointer h r) \<Longrightarrow>
   (\<forall>x \<in> S. c' x = None) \<and>
   (\<forall>cur \<in> S. reference_pointer h r = Some cur \<longrightarrow> (\<forall>v. res \<noteq> Inr v))"
proof (induction n arbitrary: r h c res h' c' S)
  case 0
  then show ?case by simp
next
  case (Suc n)
  note run = Suc.prems(1) and inv = Suc.prems(2)
  from inv have absent: "\<forall>x \<in> S. c x = None"
    and next_one: "\<forall>x \<in> S. \<exists>y. (y \<in> S \<or> reference_pointer h r = Some y) \<and> refers h schema x y"
    by (simp_all add: in_progress_def)
  show ?case
  proof (cases "reference_pointer h r")
    case None
    with run have "c' = c" by simp
    with absent None show ?thesis by simp
  next
    case (Some sp)
    have in_S: "sp \<noteq> '''' \<and> take 4 sp \<noteq> ''http'' \<and> is_allOf_wrapper h (JsonPointer_get h schema sp) \<and>
        c sp = None \<and>
        (\<exists>y \<in> insert sp S. \<exists>m \<in> set (elems h (read_prop h (JsonPointer_get h schema sp) ''allOf'')).
           reference_pointer h m = Some y)"
      if "sp \<in> S"
    proof -
      from that next_one Some obtain y where y: "y \<in> S \<or> sp = y" and r: "refers h schema sp y"
        by auto
      from y have "y \<in> insert sp S" by auto
      with r that absent show ?thesis unfolding refers_def by auto
    qed
    show ?thesis
    proof (cases "c sp")
      case (Some e)
      with run \<open>reference_pointer h r = Some sp\<close> have "c' = c"
        by (auto split: if_splits)
      with absent Some in_S \<open>reference_pointer h r = Some sp\<close> show ?thesis by auto
    next
      case None
      show ?thesis
      proof (cases "sp = '''' \<or> take 4 sp = ''http'' \<or>
          \<not> is_allOf_wrapper h (JsonPointer_get h schema sp)")
        case True
        with in_S have notin: "sp \<notin> S" by auto
        from True run \<open>reference_pointer h r = Some sp\<close> None
        have "c' = c \<or> (\<exists>e. c' = c(sp \<mapsto> e))"
          by (auto simp: Let_def split: if_splits)
        with absent notin have "\<forall>x \<in> S. c' x = None" by auto
        with notin \<open>reference_pointer h r = Some sp\<close> show ?thesis by simp
      next
        case False
        then have ne: "sp \<noteq> ''''" and nh: "take 4 sp \<noteq> ''http''"
          and w: "is_allOf_wrapper h (JsonPointer_get h schema sp)" by simp_all
        let ?ms = "elems h (read_prop h (JsonPointer_get h schema sp) ''allOf'')"
        let ?self = "\<lambda>object. resolveSchemaReference n this object schema ok"
        show ?thesis
        proof (cases "resolve_members ?self this ?ms (h, c)")
          case None
          with run \<open>reference_pointer h r = Some sp\<close> \<open>c sp = None\<close> ne nh w
          show ?thesis by (simp add: Let_def)
        next
          case (Some a)
          obtain r1 h1 c1 where a: "a = (r1, (h1, c1))" by (cases a) auto
          have a1: "\<forall>x \<in> insert sp S. c x = None"
            using absent \<open>c sp = None\<close> by simp
          have a2: "\<forall>x \<in> S. \<exists>y \<in> insert sp S. refers h schema x y"
            using next_one \<open>reference_pointer h r = Some sp\<close> by auto
          have members: "(\<forall>x \<in> insert sp S. c1 x = None) \<and>
             ((\<exists>m \<in> set ?ms. \<exists>y \<in> insert sp S. reference_pointer h m = Some y) \<longrightarrow>
                (\<forall>vs. r1 \<noteq> Inr vs))"
          proof (rule members_in_progress [where self = ?self and schema = schema and this = this
                and ms = ?ms and h = h and c = c and ?h1.0 = h1])
            show "resolve_members ?self this ?ms (h, c) = Some (r1, (h1, c1))"
              using Some a by simp
          next
            fix r h c res h' c' S
            assume "resolveSchemaReference n this r schema ok (h, c) = Some (res, (h', c'))"
              and "in_progress h schema c S (reference_pointer h r)"
            then show "(\<forall>x \<in> S. c' x = None) \<and>
               (\<forall>cur \<in> S. reference_pointer h r = Some cur \<longrightarrow> (\<forall>v. res \<noteq> Inr v))"
              by (rule Suc.IH)
          next
            fix r s res s'
            assume "resolveSchemaReference n this r schema ok s = Some (res, s')"
            then show "\<exists>ext. fst s' = fst s @ ext" by (rule resolve_extends)
          next
            fix r h c res h' c'
            assume "resolveSchemaReference n this r schema ok (h, c) = Some (res, (h', c'))"
              and "reference_pointer h r = None"
            then show "c' = c" by (rule resolve_plain)
          qed (use a1 a2 ne nh w in simp_all)
          from members have kept: "\<forall>x \<in> insert sp S. c1 x = None" by (rule conjunct1)
          show ?thesis
          proof (cases r1)
            case (Inl err)
            with run \<open>reference_pointer h r = Some sp\<close> \<open>c sp = None\<close> ne nh w Some a
            have "res = Inl err" and "c' = c1" by (simp_all add: Let_def)
            with kept show ?thesis by simp
          next
            case (Inr vs)
            with members have "\<not> (\<exists>m \<in> set ?ms. \<exists>y \<in> insert sp S. reference_pointer h m = Some y)"
              by auto
            with in_S have notin: "sp \<notin> S" by auto
            from Inr run \<open>reference_pointer h r = Some sp\<close> \<open>c sp = None\<close> ne nh w Some a
            have "\<exists>e. c' = c1(sp \<mapsto> e)" by (auto simp: Let_def)
            with kept notin have "\<forall>x \<in> S. c' x = None" by auto
            with notin \<open>reference_pointer h r = Some sp\<close> show ?thesis by simp
          qed
        qed
      qed
    qed
  qed
qed

lemma members_leave_pointer_absent:
  assumes "c p = None" and "p \<noteq> ''''" and "take 4 p \<noteq> ''http''"
    and "is_allOf_wrapper h (JsonPointer_get h schema p)"
    and "resolve_members (\<lambda>object. resolveSchemaReference n this object schema ok) this
           (elems h (read_prop h (JsonPointer_get h schema p) ''allOf'')) (h, c) =
         Some (res, (h1, c1))"
  shows "c1 p = None"
proof -
  let ?self = "\<lambda>object. resolveSchemaReference n this object schema ok"
  let ?ms = "elems h (read_prop h (JsonPointer_get h schema p) ''allOf'')"
  have "(\<forall>x \<in> insert p {}. c1 x = None) \<and>
     ((\<exists>m \<in> set ?ms. \<exists>y \<in> insert p {}. reference_pointer h m = Some y) \<longrightarrow>
        (\<forall>vs. res \<noteq> Inr vs))"
  proof (rule members_in_progress [where self = ?self and schema = schema and this = this
        and ms = ?ms and h = h and c = c and ?h1.0 = h1])
    show "resolve_members ?self this ?ms (h, c) = Some (res, (h1, c1))" by (rule assms(5))
  next
    fix r h c res h' c' S
    assume "resolveSchemaReference n this r schema ok (h, c) = Some (res, (h', c'))"
      and "in_progress h schema c S (reference_pointer h r)"
    then show "(\<forall>x \<in> S. c' x = None) \<and>
       (\<forall>cur \<in> S. reference_pointer h r = Some cur \<longrightarrow> (\<forall>v. res \<noteq> Inr v))"
      by (rule in_progress_kept)
  next
    fix r s res s'
    assume "resolveSchemaReference n this r schema ok s = Some (res, s')"
    then show "\<exists>ext. fst s' = fst s @ ext" by (rule resolve_extends)
  next
    fix r h c res h' c'
    assume "resolveSchemaReference n this r schema ok (h, c) = Some (res, (h', c'))"
      and "reference_pointer h r = None"
    then show "c' = c" by (rule resolve_plain)
  qed (use assms in simp_all)
  then show ?thesis by simp
qed

lemma resolve_cached:
  "reference_pointer h r = Some p \<Longrightarrow> c p = Some e \<Longrightarrow> \<not> isCircular e \<or> ok \<Longrightarrow>
   resolveSchemaReference (Suc n) this r schema ok (h, c) = Some (Inr (entry_schema e), (h, c))"
  by auto

lemma resolve_populates:
  assumes "reference_pointer h r = Some p" and "p \<noteq> ''''" and "c p = None"
    and "resolveSchemaReference n this r schema ok (h, c) = Some (Inr v, (h1, c1))"
  shows "c1 p = Some \<lparr>isCircular = False, entry_schema = v\<rparr>"
proof (cases n)
  case 0
  with assms show ?thesis by simp
next
  case (Suc k)
  with assms show ?thesis
    by (auto simp: Let_def split: if_splits option.splits sum.splits prod.splits)
qed

text \<open>
  C3. Memoization. A resolution of a non-root pointer that is not in the cache and that
  returns a value leaves that value in the cache under the pointer, not marked circular.
  Resolving a pointer whose entry is not marked circular returns the cached value itself
  (the same reference, so a change made to the resolved object in between is seen),
  opens no recursive call and changes neither the store nor the cache. No call of the
  resolver, however it ends, changes an entry that is in the cache when the call starts.
  And while the members of an \<^verbatim>\<open>allOf\<close> wrapper are resolved, the entry of the wrapper's
  own pointer is not written, so the write that follows them is the first: an entry is
  written once.
\<close>

theorem memoization:
  "(reference_pointer h reference = Some p \<and> p \<noteq> '''' \<and> c p = None \<and>
    resolveSchemaReference n this reference schema circularOK (h, c) = Some (Inr v, (h1, c1)) \<longrightarrow>
      c1 p = Some \<lparr>isCircular = False, entry_schema = v\<rparr>) \<and>
   (reference_pointer h2 reference2 = Some p \<and> c2 p = Some e \<and> \<not> isCircular e \<longrightarrow>
      resolveSchemaReference (Suc m) this2 reference2 schema2 circularOK2 (h2, c2) =
        Some (Inr (entry_schema e), (h2, c2))) \<and>
   (resolveSchemaReference k this3 reference3 schema3 circularOK3 (h3, c3) = Some (res, (h4, c4)) \<and>
    c3 p = Some e \<longrightarrow> c4 p = Some e) \<and>
   (c5 p = None \<and> p \<noteq> '''' \<and> take 4 p \<noteq> ''http'' \<and>
    is_allOf_wrapper h5 (JsonPointer_get h5 schema5 p) \<and>
    resolve_members (\<lambda>object. resolveSchemaReference j this5 object schema5 circularOK5) this5
      (elems h5 (read_prop h5 (JsonPointer_get h5 schema5 p) ''allOf'')) (h5, c5) =
      Some (res5, (h6, c6)) \<longrightarrow> c6 p = None)"
  using resolve_populates [of h reference p c n this schema circularOK v h1 c1]
    resolve_cached [of h2 reference2 p c2 e circularOK2 m this2 schema2]
    resolve_keeps_entry [of k this3 reference3 schema3 circularOK3 "(h3, c3)" res "(h4, c4)" p e]
    members_leave_pointer_absent [of c5 p h5 schema5 j this5 circularOK5 res5 h6 c6]
  by simp

theorem memoization_witness:
  "reference_pointer allOf_schema (Str ''/defs/w'') = Some ''/defs/w'' \<and>
   resolveSchemaReference 2 ThisModule (Str ''/defs/w'') (Ref 0) False (allOf_schema, Map.empty) =
     Some (Inr (Ref 7), (allOf_schema @ [Object [(''a'', Num 1), (''b'', Num 2)]], w_cache)) \<and>
   w_cache ''/defs/w'' = Some \<lparr>isCircular = False, entry_schema = Ref 7\<rparr> \<and>
   resolveSchemaReference 1 ThisModule (Str ''/defs/w'') (Ref 0) False
       (allOf_schema @ [Object [(''a'', Num 1), (''b'', Num 2), (''c'', Num 3)]], w_cache) =
     Some (Inr (Ref 7), (allOf_schema @ [Object [(''a'', Num 1), (''b'', Num 2), (''c'', Num 3)]], w_cache)) \<and>
   resolveSchemaReference 1 ThisModule (Str ''/defs'') (Ref 0) False
       (allOf_schema @ [Object [(''a'', Num 1), (''b'', Num 2)]], w_cache) =
     Some (Inr (Ref 1), (allOf_schema @ [Object [(''a'', Num 1), (''b'', Num 2)]],
        w_cache(''/defs'' \<mapsto> \<lparr>isCircular = False, entry_schema = Ref 1\<rparr>))) \<and>
   (w_cache(''/defs'' \<mapsto> \<lparr>isCircular = False, entry_schema = Ref 1\<rparr>)) ''/defs/w'' =
     Some \<lparr>isCircular = False, entry_schema = Ref 7\<rparr> \<and>
   resolve_members (\<lambda>object. resolveSchemaReference 1 ThisModule object (Ref 0) False)
      ThisModule (elems allOf_schema (read_prop allOf_schema
         (JsonPointer_get allOf_schema (Ref 0) ''/defs/w'') ''allOf'')) (allOf_schema, Map.empty) =
      Some (Inr [Ref 4, Ref 6],
         (allOf_schema, [''/defs/b'' \<mapsto> \<lparr>isCircular = False, entry_schema = Ref 6\<rparr>])) \<and>
   [''/defs/b'' \<mapsto> \<lparr>isCircular = False, entry_schema = Ref 6\<rparr>] ''/defs/w'' = None"
proof -
  let ?cb = "[''/defs/b'' \<mapsto> \<lparr>isCircular = False, entry_schema = Ref 6\<rparr>]"
  have nh: "take 4 ''/defs/w'' \<noteq> ''http''" by simp
  have wr: "is_allOf_wrapper allOf_schema (JsonPointer_get allOf_schema (Ref 0) ''/defs/w'')"
    by (simp add: store_eval allOf_schema_def)
  have mem: "resolve_members (\<lambda>object. resolveSchemaReference 1 ThisModule object (Ref 0) False)
      ThisModule (elems allOf_schema (read_prop allOf_schema
         (JsonPointer_get allOf_schema (Ref 0) ''/defs/w'') ''allOf'')) (allOf_schema, Map.empty) =
      Some (Inr [Ref 4, Ref 6], (allOf_schema, ?cb))"
    by (simp add: store_eval allOf_schema_def)
  let ?h1 = "allOf_schema @ [Object [(''a'', Num 1), (''b'', Num 2)]]"
  let ?h2 = "allOf_schema @ [Object [(''a'', Num 1), (''b'', Num 2), (''c'', Num 3)]]"
  let ?e = "\<lparr>isCircular = False, entry_schema = Ref 7\<rparr>"
  let ?c3 = "w_cache(''/defs'' \<mapsto> \<lparr>isCircular = False, entry_schema = Ref 1\<rparr>)"
  have p: "reference_pointer allOf_schema (Str ''/defs/w'') = Some ''/defs/w''"
    and p2: "reference_pointer ?h2 (Str ''/defs/w'') = Some ''/defs/w''"
    by (simp_all add: reference_pointer_def compile_def)
  have ne: "''/defs/w'' \<noteq> ''''" and em: "Map.empty ''/defs/w'' = (None :: entry option)"
    by simp_all
  have first: "resolveSchemaReference 2 ThisModule (Str ''/defs/w'') (Ref 0) False
      (allOf_schema, Map.empty) = Some (Inr (Ref 7), (?h1, w_cache))"
    using allOf_example [of 0] by (simp add: w_cache_def numeral_2_eq_2)
  have third: "resolveSchemaReference 1 ThisModule (Str ''/defs'') (Ref 0) False (?h1, w_cache) =
      Some (Inr (Ref 1), (?h1, ?c3))"
    by (simp add: store_eval allOf_schema_def w_cache_def)
  note m = memoization [where h = allOf_schema and reference = "Str ''/defs/w''"
      and p = "''/defs/w''" and c = Map.empty and n = 2 and this = ThisModule and schema = "Ref 0"
      and circularOK = False and v = "Ref 7" and ?h1.0 = ?h1 and ?c1.0 = w_cache
      and ?h2.0 = ?h2 and ?reference2.0 = "Str ''/defs/w''" and ?c2.0 = w_cache and e = ?e
      and m = 0 and ?this2.0 = ThisModule and ?schema2.0 = "Ref 0" and ?circularOK2.0 = False
      and k = 1 and ?this3.0 = ThisModule and ?reference3.0 = "Str ''/defs''"
      and ?schema3.0 = "Ref 0" and ?circularOK3.0 = False and ?h3.0 = ?h1 and ?c3.0 = w_cache
      and res = "Inr (Ref 1)" and ?h4.0 = ?h1 and ?c4.0 = ?c3
      and ?c5.0 = Map.empty and ?h5.0 = allOf_schema and ?schema5.0 = "Ref 0" and j = 1
      and ?this5.0 = ThisModule and ?circularOK5.0 = False and ?res5.0 = "Inr [Ref 4, Ref 6]"
      and ?h6.0 = allOf_schema and ?c6.0 = ?cb]
  have populated: "w_cache ''/defs/w'' = Some ?e"
    by (rule m [THEN conjunct1, THEN mp]) (intro conjI p ne em first)
  have ncirc: "\<not> isCircular ?e" by simp
  have again: "resolveSchemaReference (Suc 0) ThisModule (Str ''/defs/w'') (Ref 0) False (?h2, w_cache) =
      Some (Inr (entry_schema ?e), (?h2, w_cache))"
    by (rule m [THEN conjunct2, THEN conjunct1, THEN mp]) (intro conjI p2 populated ncirc)
  have kept: "?c3 ''/defs/w'' = Some ?e"
    by (rule m [THEN conjunct2, THEN conjunct2, THEN conjunct1, THEN mp])
      (intro conjI third populated)
  have es: "entry_schema ?e = Ref 7" by simp
  have once: "?cb ''/defs/w'' = None"
    by (rule m [THEN conjunct2, THEN conjunct2, THEN conjunct2, THEN mp])
      (intro conjI em ne nh wr mem)
  from p first populated again [unfolded es One_nat_def [symmetric]] third kept mem once
  show ?thesis by (intro conjI)
qed

lemma allOf_cycle_diverges:
  assumes cyc: "allOf_cycle h schema c ps"
  shows "p \<in> set ps \<Longrightarrow> reference_pointer h reference = Some p \<Longrightarrow>
         resolveSchemaReference n ThisModule reference schema circularOK (h, c) = None"
proof (induction n arbitrary: p reference)
  case 0
  show ?case by simp
next
  case (Suc n)
  from Suc.prems(1) obtain i where i: "i < length ps" and p: "p = ps ! i"
    by (auto simp: in_set_conv_nth)
  let ?q = "ps ! (Suc i mod length ps)"
  from cyc i p have ne: "p \<noteq> ''''" and nh: "take 4 p \<noteq> ''http''" and nc: "c p = None"
    and rf: "refers_first h schema p ?q"
    by (auto simp: allOf_cycle_def)
  from i have "0 < length ps" by (cases ps) simp_all
  then have "Suc i mod length ps < length ps" by (rule mod_less_divisor)
  then have q: "?q \<in> set ps" by simp
  from rf have w: "is_allOf_wrapper h (JsonPointer_get h schema p)"
    by (simp add: refers_first_def)
  from rf obtain object rest where
    ms: "elems h (read_prop h (JsonPointer_get h schema p) ''allOf'') = object # rest"
    and ob: "reference_pointer h object = Some ?q"
    by (auto simp: refers_first_def split: list.splits)
  from Suc.IH [OF q ob]
  have "resolveSchemaReference n ThisModule object schema circularOK (h, c) = None" .
  with Suc.prems(2) ne nh nc w ms show ?case by (simp add: Let_def)
qed

lemma reference_cycle_no_value:
  assumes cyc: "reference_cycle h schema c ps" and p: "p \<in> set ps"
    and r: "reference_pointer h reference = Some p"
  shows "resolveSchemaReference depth this reference schema circularOK (h, c) \<noteq> Some (Inr v, s')"
proof
  assume run: "resolveSchemaReference depth this reference schema circularOK (h, c) = Some (Inr v, s')"
  obtain h' c' where s': "s' = (h', c')" by (cases s')
  have "in_progress h schema c (set ps) (reference_pointer h reference)"
    unfolding in_progress_def
  proof (intro conjI ballI)
    fix x assume "x \<in> set ps"
    then obtain i where "i < length ps" and "x = ps ! i" by (auto simp: in_set_conv_nth)
    with cyc show "c x = None" by (simp add: reference_cycle_def)
  next
    fix x assume "x \<in> set ps"
    then obtain i where i: "i < length ps" and x: "x = ps ! i" by (auto simp: in_set_conv_nth)
    from i have "0 < length ps" by (cases ps) simp_all
    then have "Suc i mod length ps < length ps" by (rule mod_less_divisor)
    then have "ps ! (Suc i mod length ps) \<in> set ps" by simp
    moreover from cyc i x have "refers h schema x (ps ! (Suc i mod length ps))"
      by (simp add: reference_cycle_def)
    ultimately show "\<exists>y. (y \<in> set ps \<or> reference_pointer h reference = Some y) \<and> refers h schema x y"
      by blast
  qed
  from in_progress_kept [OF run [unfolded s'] this] p r show False by auto
qed

lemma cycle_second_cycle: "reference_cycle cycle_second (Ref 0) Map.empty [''/defs/A'']"
proof -
  have "refers cycle_second (Ref 0) ''/defs/A'' ''/defs/A''"
    by (simp add: refers_def store_eval cycle_second_def)
  then show ?thesis by (simp add: reference_cycle_def)
qed

lemma cycle_allOf_cycle: "allOf_cycle cycle_allOf (Ref 0) Map.empty [''/defs/A'', ''/defs/B'']"
proof -
  have a: "refers_first cycle_allOf (Ref 0) ''/defs/A'' ''/defs/B''"
    and b: "refers_first cycle_allOf (Ref 0) ''/defs/B'' ''/defs/A''"
    by (simp_all add: refers_first_def store_eval cycle_allOf_def)
  have "ps ! i \<noteq> '''' \<and> take 4 (ps ! i) \<noteq> ''http'' \<and> Map.empty (ps ! i) = (None :: entry option) \<and>
        refers_first cycle_allOf (Ref 0) (ps ! i) (ps ! (Suc i mod length ps))"
    if "i < length ps" and "ps = [''/defs/A'', ''/defs/B'']" for i ps
  proof -
    from that have "i = 0 \<or> i = Suc 0" by auto
    with that a b show ?thesis by auto
  qed
  then show ?thesis by (simp add: allOf_cycle_def)
qed

text \<open>
  C4. Cycles that are not the root self-reference. The statement of the spec fails on a cycle
  of plain references: with \<^verbatim>\<open>/defs/A\<close> holding \<^verbatim>\<open>{"$ref": "/defs/B"}\<close> and \<^verbatim>\<open>/defs/B\<close>
  holding \<^verbatim>\<open>{"$ref": "/defs/A"}\<close>, resolving \<^verbatim>\<open>/defs/A\<close> opens no recursive call: the
  target is not an \<^verbatim>\<open>allOf\<close> wrapper, so it is cached and returned as it is.
\<close>

theorem ref_cycle_returns:
  "reference_pointer cycle_ref (JsonPointer_get cycle_ref (Ref 0) ''/defs/A'') = Some ''/defs/B'' \<and>
   reference_pointer cycle_ref (JsonPointer_get cycle_ref (Ref 0) ''/defs/B'') = Some ''/defs/A'' \<and>
   resolveSchemaReference 1 ThisModule (Str ''/defs/A'') (Ref 0) False (cycle_ref, Map.empty) =
     Some (Inr (Ref 2), (cycle_ref, [''/defs/A'' \<mapsto> \<lparr>isCircular = False, entry_schema = Ref 2\<rparr>]))"
  by (simp add: store_eval cycle_ref_def)

text \<open>
  C4, as amended. The resolver recurses only through \<^verbatim>\<open>allOf\<close> wrappers. For a cycle of
  one or more pointers, none the root, none starting with \<^verbatim>\<open>http\<close>, none in the cache,
  where the target of each is an \<^verbatim>\<open>allOf\<close> wrapper whose first member refers to the next
  pointer, resolving any pointer of the cycle (with the module as receiver) never
  returns: the entry of a pointer is written only after its members are resolved, so
  no call depth is enough. When the member that refers to the next pointer is not the
  first, the members before it are resolved first (and may throw), and the resolution
  still never returns a value.
\<close>

theorem allOf_cycle_not_detected:
  "(allOf_cycle h schema c ps \<and> p \<in> set ps \<and> reference_pointer h reference = Some p \<longrightarrow>
      (\<forall>depth. resolveSchemaReference depth ThisModule reference schema circularOK (h, c) = None)) \<and>
   (reference_cycle h schema c ps \<and> p \<in> set ps \<and> reference_pointer h reference = Some p \<longrightarrow>
      (\<forall>depth v s'. resolveSchemaReference depth this reference schema circularOK (h, c) \<noteq>
         Some (Inr v, s')))"
  using allOf_cycle_diverges [of h schema c ps p reference _ circularOK]
    reference_cycle_no_value [of h schema c ps p reference _ this circularOK]
  by blast

theorem allOf_cycle_not_detected_witness:
  "allOf_cycle cycle_allOf (Ref 0) Map.empty [''/defs/A'', ''/defs/B''] \<and>
   ''/defs/A'' \<in> set [''/defs/A'', ''/defs/B''] \<and>
   reference_pointer cycle_allOf (Str ''/defs/A'') = Some ''/defs/A'' \<and>
   (\<forall>depth. resolveSchemaReference depth ThisModule (Str ''/defs/A'') (Ref 0) False
       (cycle_allOf, Map.empty) = None) \<and>
   reference_cycle cycle_second (Ref 0) Map.empty [''/defs/A''] \<and>
   reference_pointer cycle_second (Str ''/defs/A'') = Some ''/defs/A'' \<and>
   (\<forall>depth v s'. resolveSchemaReference depth ThisModule (Str ''/defs/A'') (Ref 0) False
       (cycle_second, Map.empty) \<noteq> Some (Inr v, s'))"
proof -
  have 3: "''/defs/A'' \<in> set [''/defs/A'']" by simp
  have 4: "reference_pointer cycle_second (Str ''/defs/A'') = Some ''/defs/A''"
    by (simp add: reference_pointer_def compile_def)
  have second: "\<forall>depth v s'. resolveSchemaReference depth ThisModule (Str ''/defs/A'') (Ref 0) False
       (cycle_second, Map.empty) \<noteq> Some (Inr v, s')"
    by (rule allOf_cycle_not_detected [where h = cycle_second and schema = "Ref 0"
          and c = Map.empty and ps = "[''/defs/A'']" and p = "''/defs/A''"
          and reference = "Str ''/defs/A''" and this = ThisModule and circularOK = False,
          THEN conjunct2, THEN mp])
      (intro conjI cycle_second_cycle 3 4)
  have 1: "''/defs/A'' \<in> set [''/defs/A'', ''/defs/B'']" by simp
  have 2: "reference_pointer cycle_allOf (Str ''/defs/A'') = Some ''/defs/A''"
    by (simp add: reference_pointer_def compile_def)
  have "\<forall>depth. resolveSchemaReference depth ThisModule (Str ''/defs/A'') (Ref 0) False
       (cycle_allOf, Map.empty) = None"
    by (rule allOf_cycle_not_detected [where h = cycle_allOf and schema = "Ref 0"
          and c = Map.empty and ps = "[''/defs/A'', ''/defs/B'']" and p = "''/defs/A''"
          and reference = "Str ''/defs/A''" and circularOK = False,
          THEN conjunct1, THEN mp])
      (intro conjI cycle_allOf_cycle 1 2)
  with cycle_allOf_cycle 1 2 cycle_second_cycle 4 second show ?thesis by (intro conjI)
qed

section \<open>Properties of forOwnDeep\<close>

lemmas walk_eval = store_eval record_visit_def truthy_def currentKey_of_def forward_keys_def
  key_segment_def read_key_def escape_def

text \<open>
  C7. The spec: a call without a root argument invokes the visitor on every descendant
  of the input. The code: lodash stops an iteration when the callback returns
  \<^verbatim>\<open>false\<close>, and the callback returns the child value, so the siblings after a child
  that is \<^verbatim>\<open>false\<close> are never visited. On \<^verbatim>\<open>{"a": false, "b": 1}\<close> the visitor is invoked on
  \<^verbatim>\<open>/a\<close> only.
\<close>

theorem forOwnDeep_stops_at_false:
  "forOwnDeep (Suc (Suc n)) ThisModule (Ref 0) (record_visit 1) Null '''' False false_doc =
   Some (Inr (Ref 0), false_doc[1 := Array [Str ''/a'']])"
  by (simp add: walk_eval false_doc_def)

text \<open>
  C8. The bottom-up order of the spec (\<^verbatim>\<open>a/b\<close>, then \<^verbatim>\<open>a\<close>, then \<^verbatim>\<open>c\<close>) is not what the code does:
  with \<^verbatim>\<open>bottomUp\<close> the keys are taken with \<^verbatim>\<open>_.forOwnRight\<close>, so \<^verbatim>\<open>c\<close> comes first.
\<close>

theorem bottom_up_order_counterexample:
  "forOwnDeep 3 ThisModule (Ref 0) (record_visit 2) Null '''' True walk_doc =
     Some (Inr (Ref 0), walk_doc[2 := Array [Str ''/c'', Str ''/a/b'', Str ''/a'']]) \<and>
   forOwnDeep 3 ThisModule (Ref 0) (record_visit 2) Null '''' True walk_doc \<noteq>
     Some (Inr (Ref 0), walk_doc[2 := Array [Str ''/a/b'', Str ''/a'', Str ''/c'']])"
  by (simp add: walk_eval walk_doc_def eval_nat_numeral)

text \<open>
  C8, as amended. Walking \<^verbatim>\<open>{"a": {"b": 1}, "c": 2}\<close> top-down invokes the visitor on
  \<^verbatim>\<open>a\<close>, then \<^verbatim>\<open>a/b\<close>, then \<^verbatim>\<open>c\<close>; with \<^verbatim>\<open>bottomUp\<close> it invokes the visitor on \<^verbatim>\<open>c\<close>, then
  \<^verbatim>\<open>a/b\<close>, then \<^verbatim>\<open>a\<close>: every node after its children, and the keys in reverse order.
\<close>

theorem forOwnDeep_order:
  "forOwnDeep (Suc (Suc (Suc n))) ThisModule (Ref 0) (record_visit 2) Null '''' False walk_doc =
     Some (Inr (Ref 0), walk_doc[2 := Array [Str ''/a'', Str ''/a/b'', Str ''/c'']]) \<and>
   forOwnDeep (Suc (Suc (Suc n))) ThisModule (Ref 0) (record_visit 2) Null '''' True walk_doc =
     Some (Inr (Ref 0), walk_doc[2 := Array [Str ''/c'', Str ''/a/b'', Str ''/a'']])"
  by (simp add: walk_eval walk_doc_def)

section \<open>Properties of mapLayout and of the unbound receiver\<close>

lemma mapLayout_step:
  assumes "mapLayout_children self this (array_at h layout index)
             (path @ ''/'' @ show_int (int index + indexPad)) h = Some (Inr u, h1)"
    and "fn (array_at h layout index) (int index + indexPad) rootLayout
             (path @ ''/'' @ show_int (int index + indexPad)) h1 = (Inr newItem, h2)"
  shows "mapLayout_loop self this fn layout rootLayout path (index # rest) newLayout indexPad h =
         (if newItem = Undefined
          then mapLayout_loop self this fn layout rootLayout path rest newLayout (indexPad - 1) h2
          else if isArray h2 newItem
          then mapLayout_loop self this fn layout rootLayout path rest
                 (newLayout @ elems h2 newItem) (indexPad + (int (length (elems h2 newItem)) - 1)) h2
          else mapLayout_loop self this fn layout rootLayout path rest
                 (newLayout @ [newItem]) indexPad h2)"
  using assms by (simp add: Let_def)

lemma mapLayout_loop_position:
  "int index + indexPad = int (length newLayout) \<Longrightarrow>
   mapLayout_loop self this fn layout rootLayout path [index..<n] newLayout indexPad h =
   mapLayout_loop_spec self this fn layout rootLayout path [index..<n] newLayout h"
proof (induction "n - index" arbitrary: index newLayout indexPad h)
  case 0
  then show ?case by simp
next
  case (Suc d)
  then have lt: "index < n" and d: "d = n - Suc index" by simp_all
  let ?item = "array_at h layout index"
  let ?newPath = "path @ ''/'' @ show_int (int (length newLayout))"
  note pos = Suc.prems
  show ?case
  proof (cases "mapLayout_children self this ?item ?newPath h")
    case None
    with lt pos show ?thesis by (simp add: upt_conv_Cons Let_def)
  next
    case (Some a)
    obtain r h1 where a: "a = (r, h1)" by (cases a)
    show ?thesis
    proof (cases r)
      case (Inl e)
      with lt pos Some a show ?thesis by (simp add: upt_conv_Cons Let_def)
    next
      case (Inr u)
      obtain r2 h2 where f: "fn ?item (int (length newLayout)) rootLayout ?newPath h1 = (r2, h2)"
        by (cases "fn ?item (int (length newLayout)) rootLayout ?newPath h1")
      show ?thesis
      proof (cases r2)
        case (Inl e)
        with lt pos Some a Inr f show ?thesis by (simp add: upt_conv_Cons Let_def)
      next
        case newItem: (Inr newItem)
        have 1: "int (Suc index) + (indexPad - 1) = int (length newLayout)"
          using pos by simp
        have 2: "int (Suc index) + (indexPad + (int (length (elems h2 newItem)) - 1)) =
                 int (length (newLayout @ elems h2 newItem))"
          using pos by simp
        have 3: "int (Suc index) + indexPad = int (length (newLayout @ [newItem]))"
          using pos by simp
        from lt pos Some a Inr f newItem
          Suc.hyps(1) [OF d 1, of h2] Suc.hyps(1) [OF d 2, of h2] Suc.hyps(1) [OF d 3, of h2]
        show ?thesis by (simp add: upt_conv_Cons Let_def)
      qed
    qed
  qed
qed

lemma mapLayout_position:
  "mapLayout (Suc depth) this fn layout rootLayout path h =
     (if \<not> isArray h layout then Some (Inl NotAnArray, h)
      else
        (case mapLayout_loop_spec (\<lambda>l p. mapLayout depth this fn l rootLayout p) this fn
                layout rootLayout path [0..<length (elems h layout)] [] h of
           None \<Rightarrow> None
         | Some (Inl e, h1) \<Rightarrow> Some (Inl e, h1)
         | Some (Inr newLayout, h1) \<Rightarrow>
             Some (Inr (Ref (length h1)), h1 @ [Array newLayout])))"
  using mapLayout_loop_position [of 0 0 "[]"]
  by (simp add: alloc_def split: option.splits sum.splits prod.splits)






































lemma show_nat_digit: "n < 10 \<Longrightarrow> show_nat n = [''0123456789'' ! n]"
  by (simp add: show_nat.simps)

lemmas layout_eval = store_eval edit_visitor_def record_path_def
  mapLayout_children_def mapLayout_child_def show_int_def show_nat_digit

lemma flat_example:
  "mapLayout (Suc n) this (record_path 1 edit_visitor) (Ref 0) (Ref 0) '''' flat_layout =
   Some (Inr (Ref 3),
     [Array [Str ''a'', Str ''b'', Str ''c''],
      Array [Str ''/0'', Str ''/1'', Str ''/1''],
      Array [Str ''c1'', Str ''c2''],
      Array [Str ''a'', Str ''c1'', Str ''c2'']])"
  by (simp add: layout_eval flat_layout_def upt_rec)


text \<open>
  C5. The example of the spec, run: the layout \<^verbatim>\<open>['a', 'b', 'c']\<close>, a visitor that deletes the
  element at index 1 and expands the element at index 2 into two. The output has three
  elements, but the paths the visitor is called with are \<^verbatim>\<open>/0\<close>, \<^verbatim>\<open>/1\<close> and \<^verbatim>\<open>/1\<close>: the
  third element is reported at \<^verbatim>\<open>/1\<close>, and no call reports \<^verbatim>\<open>/2\<close>.
\<close>

theorem third_path_counterexample:
  "mapLayout 1 ThisModule (record_path 1 edit_visitor) (Ref 0) (Ref 0) '''' flat_layout =
   Some (Inr (Ref 3),
     [Array [Str ''a'', Str ''b'', Str ''c''],
      Array [Str ''/0'', Str ''/1'', Str ''/1''],
      Array [Str ''c1'', Str ''c2''],
      Array [Str ''a'', Str ''c1'', Str ''c2'']]) \<and>
   Str ''/2'' \<notin> set [Str ''/0'', Str ''/1'', Str ''/1'']"
  using flat_example [of 0 ThisModule] by simp

text \<open>
  C5, as amended. For every layout and visitor, the loop of \<^verbatim>\<open>mapLayout\<close> calls the
  visitor on the element at source index \<open>index\<close> with \<open>realIndex = index + indexPad\<close> and
  the path \<open>path + '/' + realIndex\<close>; a return of undefined drops the element and
  decrements \<open>indexPad\<close>, a returned array has its elements appended in place of the
  element and adds its length minus one to \<open>indexPad\<close>, any other value is appended as
  one element. So the reported index is the number of elements put out before the
  element: \<^verbatim>\<open>mapLayout\<close> is the loop that reports positions. On the example the output is
  \<^verbatim>\<open>['a', 'c1', 'c2']\<close> and the reported paths are \<^verbatim>\<open>/0\<close>, \<^verbatim>\<open>/1\<close>, \<^verbatim>\<open>/1\<close>.
\<close>

theorem mapLayout_indices:
  "(mapLayout_children self this (array_at h layout index)
       (path @ ''/'' @ show_int (int index + indexPad)) h = Some (Inr u, h1) \<and>
    fn (array_at h layout index) (int index + indexPad) rootLayout
       (path @ ''/'' @ show_int (int index + indexPad)) h1 = (Inr newItem, h2) \<longrightarrow>
    mapLayout_loop self this fn layout rootLayout path (index # rest) newLayout indexPad h =
      (if newItem = Undefined
       then mapLayout_loop self this fn layout rootLayout path rest newLayout (indexPad - 1) h2
       else if isArray h2 newItem
       then mapLayout_loop self this fn layout rootLayout path rest
              (newLayout @ elems h2 newItem) (indexPad + (int (length (elems h2 newItem)) - 1)) h2
       else mapLayout_loop self this fn layout rootLayout path rest
              (newLayout @ [newItem]) indexPad h2)) \<and>
   mapLayout (Suc depth) this fn layout rootLayout path h =
     (if \<not> isArray h layout then Some (Inl NotAnArray, h)
      else
        (case mapLayout_loop_spec (\<lambda>l p. mapLayout depth this fn l rootLayout p) this fn
                layout rootLayout path [0..<length (elems h layout)] [] h of
           None \<Rightarrow> None
         | Some (Inl e, h1) \<Rightarrow> Some (Inl e, h1)
         | Some (Inr newLayout, h1) \<Rightarrow>
             Some (Inr (Ref (length h1)), h1 @ [Array newLayout]))) \<and>
   mapLayout (Suc n) this (record_path 1 edit_visitor) (Ref 0) (Ref 0) '''' flat_layout =
     Some (Inr (Ref 3),
       [Array [Str ''a'', Str ''b'', Str ''c''],
        Array [Str ''/0'', Str ''/1'', Str ''/1''],
        Array [Str ''c1'', Str ''c2''],
        Array [Str ''a'', Str ''c1'', Str ''c2'']])"
  using mapLayout_step [of self this h layout index path indexPad u h1 fn rootLayout newItem h2
      rest newLayout]
    mapLayout_position [of depth this fn layout rootLayout path h] flat_example [of n this]
  by blast

theorem mapLayout_indices_witness:
  "mapLayout_children (\<lambda>l p h. None) ThisModule (array_at after_a (Ref 0) 1)
       ('''' @ ''/'' @ show_int (int 1 + 0)) after_a = Some (Inr (), after_a) \<and>
   record_path 1 edit_visitor (array_at after_a (Ref 0) 1) (int 1 + 0) (Ref 0)
       ('''' @ ''/'' @ show_int (int 1 + 0)) after_a = (Inr Undefined, after_b) \<and>
   mapLayout_loop (\<lambda>l p h. None) ThisModule (record_path 1 edit_visitor) (Ref 0) (Ref 0) '''' [1, 2]
       [Str ''a''] 0 after_a =
   mapLayout_loop (\<lambda>l p h. None) ThisModule (record_path 1 edit_visitor) (Ref 0) (Ref 0) '''' [2]
       [Str ''a''] (- 1) after_b"
proof -
  have 1: "mapLayout_children (\<lambda>l p h. None) ThisModule (array_at after_a (Ref 0) 1)
       ('''' @ ''/'' @ show_int (int 1 + 0)) after_a = Some (Inr (), after_a)"
    by (simp add: layout_eval after_a_def)
  have 2: "record_path 1 edit_visitor (array_at after_a (Ref 0) 1) (int 1 + 0) (Ref 0)
       ('''' @ ''/'' @ show_int (int 1 + 0)) after_a = (Inr Undefined, after_b)"
    by (simp add: layout_eval after_a_def after_b_def)
  from mapLayout_indices [where self = "\<lambda>l p h. None" and this = ThisModule and h = after_a
      and layout = "Ref 0" and index = 1 and path = "''''" and indexPad = 0 and u = "()"
      and ?h1.0 = after_a and fn = "record_path 1 edit_visitor" and rootLayout = "Ref 0"
      and newItem = Undefined and ?h2.0 = after_b and rest = "[2]" and newLayout = "[Str ''a'']",
      THEN conjunct1, THEN mp, OF conjI, OF 1 2]
  have "mapLayout_loop (\<lambda>l p h. None) ThisModule (record_path 1 edit_visitor) (Ref 0) (Ref 0) '''' [1, 2]
       [Str ''a''] 0 after_a =
   mapLayout_loop (\<lambda>l p h. None) ThisModule (record_path 1 edit_visitor) (Ref 0) (Ref 0) '''' [2]
       [Str ''a''] (0 - 1) after_b"
    by (simp only: simp_thms if_True)
  then have 3: "mapLayout_loop (\<lambda>l p h. None) ThisModule (record_path 1 edit_visitor) (Ref 0) (Ref 0) '''' [1, 2]
       [Str ''a''] 0 after_a =
   mapLayout_loop (\<lambda>l p h. None) ThisModule (record_path 1 edit_visitor) (Ref 0) (Ref 0) '''' [2]
       [Str ''a''] (- 1) after_b" by (simp only: diff_0)
  from 1 2 3 show ?thesis by (intro conjI)
qed







text \<open>
  What the visitor does matters to \<^verbatim>\<open>mapLayout\<close>: called on the first element,
  \<open>strip_visitor\<close> takes the \<^verbatim>\<open>items\<close> array away from the second, and the call with an
  undefined receiver returns normally on a layout whose second element had one.
\<close>

lemma visitor_strips_items:
  "needs_recursion mixed_layout (array_at mixed_layout (Ref 0) 1) \<and>
   mapLayout (Suc depth) ThisUndefined strip_visitor (Ref 0) (Ref 0) '''' mixed_layout =
     Some (Inr (Ref 4),
       [Array [Ref 1, Ref 2], Object [(''key'', Str ''a'')], Object [(''items'', Undefined)],
        Array [Str ''b''], Array [Ref 1, Ref 2]])"
  by (simp add: needs_recursion_def store_eval strip_visitor_def mixed_layout_def
      mapLayout_children_def mapLayout_child_def show_int_def show_nat_digit eval_nat_numeral)




end
